theory Spec2Isabelle
  imports Main
begin

section \<open>JavaScript numbers and the built-in Date object\<close>

text \<open>
  The calendar scripts compute with JavaScript numbers that are either integers or
  \<open>NaN\<close> (the accessors of an invalid Date return \<open>NaN\<close>). A number is therefore an
  \<open>int option\<close>, with \<open>None\<close> for \<open>NaN\<close>. A Date object is its time value, the number of
  milliseconds since 1 January 1970 UTC, or \<open>None\<close> for an invalid Date.

  The functions below follow the abstract operations of ECMA-262 (Day, DaysInYear,
  DayFromYear, YearFromTime, MonthFromTime, DateFromTime, WeekDay, MakeDay, MakeDate,
  MakeFullYear, TimeClip). The local time zone is taken to be UTC, so that
  \<open>LocalTime\<close> and \<open>UTC\<close> are the identity.
\<close>

type_synonym num = "int option"
type_synonym Date = "int option"

definition msPerDay :: int where
  "msPerDay = 86400000"

definition Day :: "int \<Rightarrow> int" where
  "Day t = t div msPerDay"

definition DaysInYear :: "int \<Rightarrow> int" where
  "DaysInYear y =
     (if y mod 4 \<noteq> 0 then 365
      else if y mod 100 \<noteq> 0 then 366
      else if y mod 400 \<noteq> 0 then 365
      else 366)"

definition DayFromYear :: "int \<Rightarrow> int" where
  "DayFromYear y =
     365 * (y - 1970) + (y - 1969) div 4 - (y - 1901) div 100 + (y - 1601) div 400"

text \<open>
  ECMA-262 defines \<open>YearFromTime t\<close> as the largest \<open>y\<close> with
  \<open>msPerDay * DayFromYear y \<le> t\<close>. It is computed here from the estimate
  \<open>1970 + \<lfloor>Day t / 365.2425\<rfloor>\<close>, corrected by at most one year;
  lemma \<open>TimeFromYear_le\<close> below shows that this is the year of the definition.
\<close>

definition YearFromTime :: "int \<Rightarrow> int" where
  "YearFromTime t =
     (let d = Day t; y = 1970 + (400 * d) div 146097
      in if d < DayFromYear y then y - 1
         else if DayFromYear y + DaysInYear y \<le> d then y + 1
         else y)"

definition InLeapYear :: "int \<Rightarrow> int" where
  "InLeapYear t = (if DaysInYear (YearFromTime t) = 366 then 1 else 0)"

definition DayWithinYear :: "int \<Rightarrow> int" where
  "DayWithinYear t = Day t - DayFromYear (YearFromTime t)"

definition MonthFromTime :: "int \<Rightarrow> int" where
  "MonthFromTime t =
     (let d = DayWithinYear t; l = InLeapYear t
      in if d < 31 then 0
         else if d < 59 + l then 1
         else if d < 90 + l then 2
         else if d < 120 + l then 3
         else if d < 151 + l then 4
         else if d < 181 + l then 5
         else if d < 212 + l then 6
         else if d < 243 + l then 7
         else if d < 273 + l then 8
         else if d < 304 + l then 9
         else if d < 334 + l then 10
         else 11)"

definition DateFromTime :: "int \<Rightarrow> int" where
  "DateFromTime t =
     (let d = DayWithinYear t; l = InLeapYear t; m = MonthFromTime t
      in if m = 0 then d + 1
         else if m = 1 then d - 30
         else if m = 2 then d - 58 - l
         else if m = 3 then d - 89 - l
         else if m = 4 then d - 119 - l
         else if m = 5 then d - 150 - l
         else if m = 6 then d - 180 - l
         else if m = 7 then d - 211 - l
         else if m = 8 then d - 242 - l
         else if m = 9 then d - 272 - l
         else if m = 10 then d - 303 - l
         else d - 333 - l)"

definition WeekDay :: "int \<Rightarrow> int" where
  "WeekDay t = (Day t + 4) mod 7"

text \<open>
  \<open>MakeDay\<close> asks for a time value \<open>t\<close> in year \<open>ym\<close>, month \<open>mn\<close>, on date 1, and
  returns \<open>Day t + dt - 1\<close>. That day is the first day of the year plus the days of
  the months before \<open>mn\<close> (\<open>MonthStart\<close>); lemma \<open>MakeDay_finds\<close> shows that it has
  the year, month and date asked for. ECMA-262 lets \<open>MakeDay\<close> return \<open>NaN\<close> when an
  argument is out of range; V8 does so for a year beyond 1000000 or a month beyond
  10000000 in absolute value, and \<open>MakeDay\<close> below does the same.
\<close>

definition MonthStart :: "int \<Rightarrow> int \<Rightarrow> int" where
  "MonthStart y mn =
     (let l = (if DaysInYear y = 366 then 1 else 0)
      in if mn = 0 then 0
         else if mn = 1 then 31
         else if mn = 2 then 59 + l
         else if mn = 3 then 90 + l
         else if mn = 4 then 120 + l
         else if mn = 5 then 151 + l
         else if mn = 6 then 181 + l
         else if mn = 7 then 212 + l
         else if mn = 8 then 243 + l
         else if mn = 9 then 273 + l
         else if mn = 10 then 304 + l
         else 334 + l)"

definition MakeDay :: "num \<Rightarrow> num \<Rightarrow> num \<Rightarrow> num" where
  "MakeDay year month dt =
     (case year of None \<Rightarrow> None | Some y \<Rightarrow>
      case month of None \<Rightarrow> None | Some m \<Rightarrow>
      case dt of None \<Rightarrow> None | Some d \<Rightarrow>
        if - 1000000 \<le> y \<and> y \<le> 1000000 \<and> - 10000000 \<le> m \<and> m \<le> 10000000
        then (let ym = y + m div 12; mn = m mod 12
              in Some (DayFromYear ym + MonthStart ym mn + d - 1))
        else None)"

definition MakeDate :: "num \<Rightarrow> int \<Rightarrow> num" where
  "MakeDate day time = (case day of None \<Rightarrow> None | Some d \<Rightarrow> Some (d * msPerDay + time))"

definition MakeFullYear :: "num \<Rightarrow> num" where
  "MakeFullYear year =
     (case year of None \<Rightarrow> None
      | Some y \<Rightarrow> if 0 \<le> y \<and> y \<le> 99 then Some (1900 + y) else Some y)"

definition TimeClip :: "num \<Rightarrow> num" where
  "TimeClip time =
     (case time of None \<Rightarrow> None
      | Some t \<Rightarrow> if \<bar>t\<bar> > 8640000000000000 then None else Some t)"

text \<open>\<open>new Date(year, month, date)\<close>, at midnight.\<close>

definition new_Date :: "num \<Rightarrow> num \<Rightarrow> num \<Rightarrow> Date" where
  "new_Date year month dt = TimeClip (MakeDate (MakeDay (MakeFullYear year) month dt) 0)"

definition getDay :: "Date \<Rightarrow> num" where
  "getDay D = map_option WeekDay D"

definition getDate :: "Date \<Rightarrow> num" where
  "getDate D = map_option DateFromTime D"

definition getMonth :: "Date \<Rightarrow> num" where
  "getMonth D = map_option MonthFromTime D"

definition getFullYear :: "Date \<Rightarrow> num" where
  "getFullYear D = map_option YearFromTime D"

text \<open>
  Comparisons and arithmetic on numbers: every comparison with \<open>NaN\<close> is false
  (also \<open>NaN === NaN\<close>), and arithmetic with \<open>NaN\<close> gives \<open>NaN\<close>.
\<close>

definition strict_eq :: "num \<Rightarrow> num \<Rightarrow> bool" where
  "strict_eq a b = (case a of None \<Rightarrow> False | Some x \<Rightarrow> (case b of None \<Rightarrow> False | Some y \<Rightarrow> x = y))"

definition num_less :: "num \<Rightarrow> num \<Rightarrow> bool" where
  "num_less a b = (case a of None \<Rightarrow> False | Some x \<Rightarrow> (case b of None \<Rightarrow> False | Some y \<Rightarrow> x < y))"

definition num_add :: "num \<Rightarrow> num \<Rightarrow> num" where
  "num_add a b = (case a of None \<Rightarrow> None | Some x \<Rightarrow> map_option (\<lambda>y. x + y) b)"

definition num_sub :: "num \<Rightarrow> num \<Rightarrow> num" where
  "num_sub a b = (case a of None \<Rightarrow> None | Some x \<Rightarrow> map_option (\<lambda>y. x - y) b)"

section \<open>The month grid drawn by \<open>calendar\<close>\<close>

text \<open>
  The script keeps the month on show in the variables \<open>currYear\<close>, \<open>currMonth\<close> and
  \<open>date\<close>, and \<open>calendar\<close> writes its result into two page elements. The record
  \<open>page\<close> holds the three variables and the two elements.

  \<^item> \<open>daysTag.innerHTML\<close> is a run of \<open><li class="c">n</li>\<close> items; it is kept as the
    list of these items, each with its class and the number printed in it.
  \<^item> \<open>currentDate.innerText\<close> is the template \<open>${months[currMonth]} ${currYear}\<close>; it is
    kept as the pair of the two values printed, where \<open>None\<close> for the month name is
    \<open>undefined\<close> (an index outside the array).
  \<^item> \<open>new Date()\<close> reads the wall clock. The clock of a call is a function \<open>clock\<close>:
    \<open>clock k\<close> is the time value that the call gets when it reads the clock for the
    \<open>k\<close>-th time (from 0), so that two readings within one call can differ.
\<close>

datatype li = Li (className: string) (innerText: num)

type_synonym label = "string option \<times> num"

record page =
  currYear :: num
  currMonth :: num
  date :: Date
  currentDate_innerText :: label
  daysTag_innerHTML :: "li list"

definition months :: "string list" where
  "months = [''January'', ''February'', ''March'', ''April'', ''May'', ''June'', ''July'',
             ''August'', ''September'', ''October'', ''November'', ''December'']"

definition months_at :: "num \<Rightarrow> string option" where
  "months_at i =
     (case i of None \<Rightarrow> None
      | Some k \<Rightarrow> if 0 \<le> k \<and> k < int (length months) then Some (months ! nat k) else None)"

text \<open>\<open>for (let i = firstDayofMonth; i > 0; i--)\<close>\<close>

function prev_days :: "num \<Rightarrow> int \<Rightarrow> li list \<Rightarrow> li list" where
  "prev_days lastDateofLastMonth i liTag =
     (if i > 0
      then prev_days lastDateofLastMonth (i - 1)
             (liTag @ [Li ''inactive'' (num_add (num_sub lastDateofLastMonth (Some i)) (Some 1))])
      else liTag)"
  by pat_completeness auto
termination
  by (relation "measure (\<lambda>(p, i, liTag). nat i)") auto

text \<open>
  \<open>for (let i = 1; i <= lastDateofMonth; i++)\<close>. The test
  \<open>i === date.getDate() && currMonth === new Date().getMonth() && currYear === new Date().getFullYear()\<close>
  stops at its first false operand: the clock is read for the month only on the day
  \<open>i\<close> equal to \<open>date.getDate()\<close>, and read again for the year only if the month is
  \<open>currMonth\<close>. The argument \<open>k\<close> counts the readings made so far.
\<close>

function month_days :: "(nat \<Rightarrow> int) \<Rightarrow> page \<Rightarrow> int \<Rightarrow> int \<Rightarrow> nat \<Rightarrow> li list \<Rightarrow> li list" where
  "month_days clock st lastDateofMonth i k liTag =
     (if i \<le> lastDateofMonth
      then if \<not> strict_eq (Some i) (getDate (date st))
           then month_days clock st lastDateofMonth (i + 1) k (liTag @ [Li '''' (Some i)])
           else if \<not> strict_eq (currMonth st) (getMonth (Some (clock k)))
           then month_days clock st lastDateofMonth (i + 1) (k + 1) (liTag @ [Li '''' (Some i)])
           else let isToday = (if strict_eq (currYear st) (getFullYear (Some (clock (k + 1))))
                               then ''active'' else '''')
                in month_days clock st lastDateofMonth (i + 1) (k + 2) (liTag @ [Li isToday (Some i)])
      else liTag)"
  by pat_completeness auto
termination
  by (relation "measure (\<lambda>(clock, st, n, i, k, liTag). nat (n + 1 - i))") auto

text \<open>\<open>for (let i = lastDayofMonth; i < 6; i++)\<close>\<close>

function next_days :: "int \<Rightarrow> int \<Rightarrow> li list \<Rightarrow> li list" where
  "next_days lastDayofMonth i liTag =
     (if i < 6
      then next_days lastDayofMonth (i + 1) (liTag @ [Li ''inactive'' (Some (i - lastDayofMonth + 1))])
      else liTag)"
  by pat_completeness auto
termination
  by (relation "measure (\<lambda>(w, i, liTag). nat (6 - i))") auto

text \<open>
  A loop whose start or bound is \<open>NaN\<close> does not run: its condition is false at once.
\<close>

definition calendar :: "(nat \<Rightarrow> int) \<Rightarrow> page \<Rightarrow> page" where
  "calendar clock st =
     (let firstDayofMonth = getDay (new_Date (currYear st) (currMonth st) (Some 1));
          lastDateofMonth = getDate (new_Date (currYear st) (num_add (currMonth st) (Some 1)) (Some 0));
          lastDayofMonth = getDay (new_Date (currYear st) (currMonth st) lastDateofMonth);
          lastDateofLastMonth = getDate (new_Date (currYear st) (currMonth st) (Some 0));
          liTag = [];
          liTag = (case firstDayofMonth of None \<Rightarrow> liTag
                   | Some i \<Rightarrow> prev_days lastDateofLastMonth i liTag);
          liTag = (case lastDateofMonth of None \<Rightarrow> liTag
                   | Some n \<Rightarrow> month_days clock st n 1 0 liTag);
          liTag = (case lastDayofMonth of None \<Rightarrow> liTag
                   | Some w \<Rightarrow> next_days w w liTag)
      in st\<lparr>currentDate_innerText := (months_at (currMonth st), currYear st),
            daysTag_innerHTML := liTag\<rparr>)"

text \<open>
  The click handler of the two arrow icons: it moves \<open>currMonth\<close> by one, carries a month
  outside 0..11 into the year through a Date, and redraws. \<open>normalize\<close> is the
  \<open>if\<close>/\<open>else\<close> of the handler; either branch reads the clock once (\<open>now\<close>), and
  \<open>calendar\<close> gets the readings after that one.
\<close>

definition normalize :: "int \<Rightarrow> page \<Rightarrow> page" where
  "normalize now st =
     (if num_less (currMonth st) (Some 0) \<or> num_less (Some 11) (currMonth st)
      then let d = new_Date (currYear st) (currMonth st) (getDate (Some now))
           in st\<lparr>date := d, currYear := getFullYear d, currMonth := getMonth d\<rparr>
      else st\<lparr>date := Some now\<rparr>)"

definition icon_click :: "string \<Rightarrow> (nat \<Rightarrow> int) \<Rightarrow> page \<Rightarrow> page" where
  "icon_click icon_id clock st =
     (let st = st\<lparr>currMonth := (if icon_id = ''prev'' then num_sub (currMonth st) (Some 1)
                                  else num_add (currMonth st) (Some 1))\<rparr>;
          st = normalize (clock 0) st
      in calendar (\<lambda>k. clock (k + 1)) st)"

section \<open>The month table drawn by \<open>showCalendar\<close>\<close>

text \<open>
  The second script fills a table body with six rows of up to seven \<open>td\<close> cells: an
  empty cell (a text node \<open>""\<close>) before the first day of the month, then a cell per
  day with its \<open>data-\<close> attributes and class. \<open>showCalendar\<close> calls \<open>daysInMonth\<close> and
  reads the Date \<open>today\<close>; neither is declared in the sources at hand, so both are
  parameters here, \<open>daysInMonth\<close> being any function from two numbers to a number.
\<close>

datatype td =
    EmptyCell
  | DateCell (td_className: string) (data_date: int) (data_month: num) (data_year: num)
      (data_month_name: "string option")

record table_page =
  monthAndYear_innerHTML :: label
  selectYear_value :: num
  selectMonth_value :: num
  calendar_body :: "td list list"

text \<open>
  \<open>for (var j = 0; j < 7; j++)\<close>, left by \<open>break\<close> once the month is over. The
  counter \<open>date\<close> of the script is \<open>n\<close> here (\<open>date\<close> names the Date of the first script).
\<close>

function show_row ::
  "(num \<Rightarrow> num \<Rightarrow> num) \<Rightarrow> Date \<Rightarrow> num \<Rightarrow> num \<Rightarrow> num \<Rightarrow> int \<Rightarrow> int \<Rightarrow> int \<Rightarrow> td list
     \<Rightarrow> td list \<times> int" where
  "show_row daysInMonth today month year firstDay i j n row =
     (if j < 7
      then if i = 0 \<and> num_less (Some j) firstDay
           then show_row daysInMonth today month year firstDay i (j + 1) n (row @ [EmptyCell])
           else if num_less (daysInMonth month year) (Some n)
           then (row, n)
           else let cls = (if strict_eq (Some n) (getDate today)
                              \<and> strict_eq year (getFullYear today)
                              \<and> strict_eq month (getMonth today)
                           then ''date-picker selected'' else ''date-picker'')
                in show_row daysInMonth today month year firstDay i (j + 1) (n + 1)
                     (row @ [DateCell cls n (num_add month (Some 1)) year (months_at month)])
      else (row, n))"
  by pat_completeness auto
termination
  by (relation "measure (\<lambda>(dim, today, month, year, firstDay, i, j, n, row). nat (7 - j))") auto

text \<open>\<open>for (var i = 0; i < 6; i++)\<close>\<close>

function show_rows ::
  "(num \<Rightarrow> num \<Rightarrow> num) \<Rightarrow> Date \<Rightarrow> num \<Rightarrow> num \<Rightarrow> num \<Rightarrow> int \<Rightarrow> int \<Rightarrow> td list list
     \<Rightarrow> td list list" where
  "show_rows daysInMonth today month year firstDay i n tbl =
     (if i < 6
      then case show_row daysInMonth today month year firstDay i 0 n [] of
             (row, n') \<Rightarrow>
               show_rows daysInMonth today month year firstDay (i + 1) n' (tbl @ [row])
      else tbl)"
  by pat_completeness auto
termination
  by (relation "measure (\<lambda>(dim, today, month, year, firstDay, i, n, tbl). nat (6 - i))") auto

definition showCalendar :: "(num \<Rightarrow> num \<Rightarrow> num) \<Rightarrow> Date \<Rightarrow> num \<Rightarrow> num \<Rightarrow> table_page" where
  "showCalendar daysInMonth today month year =
     (let firstDay = getDay (new_Date year month (Some 1))
      in \<lparr>monthAndYear_innerHTML = (months_at month, year),
          selectYear_value = year,
          selectMonth_value = month,
          calendar_body = show_rows daysInMonth today month year firstDay 0 1 []\<rparr>)"

text \<open>
  What a cell shows: the number printed in it, or nothing for the empty text of an
  \<open>EmptyCell\<close>.
\<close>

definition li_shown :: "li \<Rightarrow> num option" where
  "li_shown c = Some (innerText c)"

definition td_shown :: "td \<Rightarrow> num option" where
  "td_shown c = (case c of EmptyCell \<Rightarrow> None | DateCell cls d m y n \<Rightarrow> Some (Some d))"

section \<open>Months of the calendar\<close>

text \<open>
  The day count of month \<open>m\<close> (0 for January) of year \<open>y\<close> by the rules of the Gregorian
  calendar, the month before a month, and the years whose months all lie within the
  range of time values a Date can hold (at most 100,000,000 days from 1 January 1970).
\<close>

definition DaysInMonth :: "int \<Rightarrow> int \<Rightarrow> int" where
  "DaysInMonth y m =
     (if m = 1 then (if DaysInYear y = 366 then 29 else 28)
      else if m = 3 \<or> m = 5 \<or> m = 8 \<or> m = 10 then 30
      else 31)"

definition DaysInPrevMonth :: "int \<Rightarrow> int \<Rightarrow> int" where
  "DaysInPrevMonth y m = (if m = 0 then DaysInMonth (y - 1) 11 else DaysInMonth y (m - 1))"

definition FullYear :: "int \<Rightarrow> int" where
  "FullYear y = (if 0 \<le> y \<and> y \<le> 99 then 1900 + y else y)"

definition in_range :: "int \<Rightarrow> bool" where
  "in_range y = (- 271820 \<le> y \<and> y \<le> 275759)"


text \<open>
  The class \<open>calendar\<close> gives to the cell of day \<open>i\<close> of the month on show, when the
  clock reads \<open>t0\<close> for the month and \<open>t1\<close> for the year.
\<close>

definition day_class :: "int \<Rightarrow> int \<Rightarrow> page \<Rightarrow> int \<Rightarrow> string" where
  "day_class t0 t1 st i =
     (if strict_eq (Some i) (getDate (date st))
         \<and> strict_eq (currMonth st) (getMonth (Some t0))
         \<and> strict_eq (currYear st) (getFullYear (Some t1))
      then ''active'' else '''')"

text \<open>
  The weekday (0 for Sunday) of the first day of month \<open>m\<close> of year \<open>y\<close>, counted from
  Thursday 1 January 1970, and the three runs of cells of a grid with \<open>f\<close> leading cells,
  \<open>L\<close> days and \<open>P\<close> days in the month before.
\<close>

definition FirstWeekDay :: "int \<Rightarrow> int \<Rightarrow> int" where
  "FirstWeekDay y m = (DayFromYear y + MonthStart y m + 4) mod 7"

definition inactive_run :: "int \<Rightarrow> int \<Rightarrow> li list" where
  "inactive_run a b = map (\<lambda>k. Li ''inactive'' (Some k)) [a..b]"

definition day_run :: "int \<Rightarrow> int \<Rightarrow> page \<Rightarrow> int \<Rightarrow> li list" where
  "day_run t0 t1 st L = map (\<lambda>k. Li (day_class t0 t1 st k) (Some k)) [1..L]"

text \<open>
  The variables as the script sets them when it is loaded (one reading of the clock), on
  a page whose two elements hold nothing the script has written.
\<close>

definition on_load :: "int \<Rightarrow> page" where
  "on_load now =
     \<lparr>currYear = getFullYear (Some now), currMonth = getMonth (Some now), date = Some now,
      currentDate_innerText = (None, None), daysTag_innerHTML = []\<rparr>"

text \<open>
  Two clocks for concrete runs: one that stands at \<open>t\<close>, and one that gives \<open>t\<close> at its
  first \<open>n\<close> readings and \<open>t'\<close> from then on.
\<close>

definition steady :: "int \<Rightarrow> nat \<Rightarrow> int" where
  "steady t k = t"

definition turning :: "int \<Rightarrow> nat \<Rightarrow> int \<Rightarrow> nat \<Rightarrow> int" where
  "turning t n t' k = (if k < n then t else t')"

definition view :: "page \<Rightarrow> num \<times> num \<times> label \<times> li list" where
  "view st = (currYear st, currMonth st, currentDate_innerText st, daysTag_innerHTML st)"

text \<open>The cells of a grid, by the class the script gives them.\<close>

definition inactive :: "li \<Rightarrow> bool" where
  "inactive c = (className c = ''inactive'')"

definition isToday :: "li \<Rightarrow> bool" where
  "isToday c = (className c = ''active'')"

definition leading_cells :: "li list \<Rightarrow> li list" where
  "leading_cells cs = takeWhile inactive cs"

definition active_cells :: "li list \<Rightarrow> li list" where
  "active_cells cs = takeWhile (\<lambda>c. \<not> inactive c) (dropWhile inactive cs)"

definition trailing_cells :: "li list \<Rightarrow> li list" where
  "trailing_cells cs = dropWhile (\<lambda>c. \<not> inactive c) (dropWhile inactive cs)"


section \<open>Properties of the Date arithmetic\<close>

declare prev_days.simps [simp del] month_days.simps [simp del] next_days.simps [simp del]
  show_row.simps [simp del] show_rows.simps [simp del]

lemma div_bounds:
  fixes a n :: int
  assumes "0 < n"
  shows "n * (a div n) \<le> a" and "a - (n - 1) \<le> n * (a div n)"
proof -
  have e: "n * (a div n) + a mod n = a" by simp
  have "0 \<le> a mod n" "a mod n < n" using assms by simp_all
  then show "n * (a div n) \<le> a" and "a - (n - 1) \<le> n * (a div n)" using e by linarith+
qed

lemma DayFromYear_bounds:
  "400 * DayFromYear y \<le> 146097 * (y - 1970) + 589"
  "146097 * (y - 1970) - 506 \<le> 400 * DayFromYear y"
proof -
  define A where "A = (y - 1969) div 4"
  define B where "B = (y - 1901) div 100"
  define C where "C = (y - 1601) div 400"
  have a: "4 * A \<le> y - 1969" "y - 1969 - 3 \<le> 4 * A"
    unfolding A_def using div_bounds[of 4 "y - 1969"] by simp_all
  have b: "100 * B \<le> y - 1901" "y - 1901 - 99 \<le> 100 * B"
    unfolding B_def using div_bounds[of 100 "y - 1901"] by simp_all
  have c: "400 * C \<le> y - 1601" "y - 1601 - 399 \<le> 400 * C"
    unfolding C_def using div_bounds[of 400 "y - 1601"] by simp_all
  have D: "DayFromYear y = 365 * (y - 1970) + A - B + C"
    by (simp add: DayFromYear_def A_def B_def C_def)
  have a': "400 * A \<le> 100 * (y - 1969)" "100 * (y - 1969 - 3) \<le> 400 * A" using a by simp_all
  have b': "400 * B \<le> 4 * (y - 1901)" "4 * (y - 1901 - 99) \<le> 400 * B" using b by simp_all
  show "400 * DayFromYear y \<le> 146097 * (y - 1970) + 589"
    unfolding D using a'(1) b'(2) c(1) by (simp add: algebra_simps)
  show "146097 * (y - 1970) - 506 \<le> 400 * DayFromYear y"
    unfolding D using a'(2) b'(1) c(2) by (simp add: algebra_simps)
qed

lemma div_succ:
  fixes a n :: int
  assumes n: "0 < n"
  shows "(a + 1) div n = (if (a + 1) mod n = 0 then a div n + 1 else a div n)"
proof (cases "(a + 1) mod n = 0")
  case True
  then obtain k where k: "a + 1 = n * k" by (auto simp: mod_eq_0_iff_dvd)
  then have a: "a = n * (k - 1) + (n - 1)" by (simp add: algebra_simps)
  have "a div n = k - 1"
    using n by (subst a) (simp add: div_pos_pos_trivial)
  moreover have "(a + 1) div n = k" using k n by simp
  ultimately show ?thesis using True by simp
next
  case False
  have e: "a + 1 = n * ((a + 1) div n) + (a + 1) mod n" by simp
  have "0 \<le> (a + 1) mod n" using n by simp
  with False have r0: "0 < (a + 1) mod n" by linarith
  have r1: "(a + 1) mod n < n" using n by simp
  have "a = n * ((a + 1) div n) + ((a + 1) mod n - 1)" using e by linarith
  then have "a div n = (n * ((a + 1) div n) + ((a + 1) mod n - 1)) div n" by simp
  also have "\<dots> = (a + 1) div n + ((a + 1) mod n - 1) div n" using n by simp
  also have "((a + 1) mod n - 1) div n = 0"
    by (rule div_pos_pos_trivial) (use r0 r1 in linarith)+
  finally show ?thesis using False by simp
qed

lemma DayFromYear_Suc: "DayFromYear (y + 1) = DayFromYear y + DaysInYear y"
proof -
  have m4: "(y - 1968) mod 4 = 0 \<longleftrightarrow> y mod 4 = 0"
    by (simp add: mod_eq_0_iff_dvd dvd_diff_left_iff)
  have m100: "(y - 1900) mod 100 = 0 \<longleftrightarrow> y mod 100 = 0"
    by (simp add: mod_eq_0_iff_dvd dvd_diff_left_iff)
  have m400: "(y - 1600) mod 400 = 0 \<longleftrightarrow> y mod 400 = 0"
    by (simp add: mod_eq_0_iff_dvd dvd_diff_left_iff)
  have "(100::int) dvd 400" "(4::int) dvd 100" by simp_all
  then have i400: "y mod 400 = 0 \<Longrightarrow> y mod 100 = 0" and i100: "y mod 100 = 0 \<Longrightarrow> y mod 4 = 0"
    unfolding mod_eq_0_iff_dvd by (blast intro: dvd_trans)+
  have s: "y + 1 - 1969 = (y - 1969) + 1" "y + 1 - 1901 = (y - 1901) + 1"
    "y + 1 - 1601 = (y - 1601) + 1" by simp_all
  have d4: "(y + 1 - 1969) div 4 = (if y mod 4 = 0 then (y - 1969) div 4 + 1 else (y - 1969) div 4)"
    unfolding s using div_succ[of 4 "y - 1969"] m4 by simp
  have d100: "(y + 1 - 1901) div 100 = (if y mod 100 = 0 then (y - 1901) div 100 + 1 else (y - 1901) div 100)"
    unfolding s using div_succ[of 100 "y - 1901"] m100 by simp
  have d400: "(y + 1 - 1601) div 400 = (if y mod 400 = 0 then (y - 1601) div 400 + 1 else (y - 1601) div 400)"
    unfolding s using div_succ[of 400 "y - 1601"] m400 by simp
  show ?thesis
    unfolding DayFromYear_def DaysInYear_def d4 d100 d400
    using i400 i100 by auto
qed

lemma DaysInYear_cases: "DaysInYear y = 365 \<or> DaysInYear y = 366"
  by (simp add: DaysInYear_def)

lemma YearFromTime_eq:
  "YearFromTime t =
     (if Day t < DayFromYear (1970 + (400 * Day t) div 146097) then 1970 + (400 * Day t) div 146097 - 1
      else if DayFromYear (1970 + (400 * Day t) div 146097 + 1) \<le> Day t
        then 1970 + (400 * Day t) div 146097 + 1
      else 1970 + (400 * Day t) div 146097)"
  unfolding YearFromTime_def Let_def DayFromYear_Suc ..

text \<open>The year of a day is the one whose first day is the last at or before it.\<close>

lemma YearFromTime_unique:
  assumes lo: "DayFromYear y \<le> Day t" and hi: "Day t < DayFromYear (y + 1)"
  shows "YearFromTime t = y"
proof -
  define d where "d = Day t"
  define q where "q = (400 * d) div 146097"
  define y0 where "y0 = 1970 + q"
  have q: "146097 * q \<le> 400 * d" "400 * d - 146096 \<le> 146097 * q"
    unfolding q_def using div_bounds[of 146097 "400 * d"] by simp_all
  have "146097 * (y - 1970) - 506 \<le> 400 * d"
    using DayFromYear_bounds(2)[of y] lo unfolding d_def by linarith
  then have "146097 * (y - 1970 - q - 1) < 146097 * 1" using q(2) by (simp add: algebra_simps)
  then have u: "y \<le> y0 + 1" unfolding y0_def by simp
  have "400 * d < 146097 * (y + 1 - 1970) + 589"
    using DayFromYear_bounds(1)[of "y + 1"] hi unfolding d_def by linarith
  then have "146097 * (q - (y + 1 - 1970)) < 146097 * 1" using q(1) by (simp add: algebra_simps)
  then have l: "y0 - 1 \<le> y" unfolding y0_def by simp
  have Y: "YearFromTime t = (if d < DayFromYear y0 then y0 - 1
      else if DayFromYear (y0 + 1) \<le> d then y0 + 1 else y0)"
    unfolding YearFromTime_eq d_def q_def y0_def ..
  have pos: "DayFromYear y0 < DayFromYear (y0 + 1)"
    unfolding DayFromYear_Suc using DaysInYear_cases[of y0] by linarith
  from u l consider "y = y0 - 1" | "y = y0" | "y = y0 + 1" by linarith
  then show ?thesis
  proof cases
    case 1
    then have "d < DayFromYear y0" using hi by (simp add: d_def)
    then show ?thesis using 1 Y by simp
  next
    case 2
    then have "DayFromYear y0 \<le> d" "d < DayFromYear (y0 + 1)"
      using lo hi by (simp_all add: d_def)
    then show ?thesis using 2 Y by simp
  next
    case 3
    then have "DayFromYear (y0 + 1) \<le> d" using lo by (simp add: d_def)
    then show ?thesis using 3 Y pos by simp
  qed
qed

lemma YearFromTime_bounds:
  "DayFromYear (YearFromTime t) \<le> Day t" "Day t < DayFromYear (YearFromTime t + 1)"
proof -
  define d where "d = Day t"
  define q where "q = (400 * d) div 146097"
  define y0 where "y0 = 1970 + q"
  have q: "146097 * q \<le> 400 * d" "400 * d - 146096 \<le> 146097 * q"
    unfolding q_def using div_bounds[of 146097 "400 * d"] by simp_all
  have "400 * DayFromYear (y0 - 1) \<le> 400 * d"
    using DayFromYear_bounds(1)[of "y0 - 1"] q(1) by (simp add: y0_def algebra_simps)
  then have lo: "DayFromYear (y0 - 1) \<le> d" by simp
  have "400 * d < 400 * DayFromYear (y0 + 1 + 1)"
    using DayFromYear_bounds(2)[of "y0 + 1 + 1"] q(2) by (simp add: y0_def algebra_simps)
  then have hi: "d < DayFromYear (y0 + 1 + 1)" by simp
  have Y: "YearFromTime t = (if d < DayFromYear y0 then y0 - 1
      else if DayFromYear (y0 + 1) \<le> d then y0 + 1 else y0)"
    unfolding YearFromTime_eq d_def q_def y0_def ..
  have m: "y0 - 1 + 1 = y0" by simp
  show "DayFromYear (YearFromTime t) \<le> Day t"
    unfolding Y d_def[symmetric] using lo by auto
  show "Day t < DayFromYear (YearFromTime t + 1)"
    unfolding Y d_def[symmetric] using hi by (auto simp: m)
qed

lemma DayFromYear_mono_aux: "0 \<le> k \<Longrightarrow> DayFromYear y \<le> DayFromYear (y + k)"
proof (induction k rule: int_ge_induct)
  case base
  then show ?case by simp
next
  case (step i)
  have "DayFromYear (y + (i + 1)) = DayFromYear (y + i) + DaysInYear (y + i)"
    using DayFromYear_Suc[of "y + i"] by (simp add: add.assoc)
  then show ?case using step DaysInYear_cases[of "y + i"] by linarith
qed

lemma DayFromYear_mono: "y \<le> y' \<Longrightarrow> DayFromYear y \<le> DayFromYear y'"
  using DayFromYear_mono_aux[of "y' - y" y] by simp

lemma YearFromTime_greatest: "DayFromYear y \<le> Day t \<longleftrightarrow> y \<le> YearFromTime t"
proof
  assume a: "DayFromYear y \<le> Day t"
  show "y \<le> YearFromTime t"
  proof (rule ccontr)
    assume "\<not> y \<le> YearFromTime t"
    then have "YearFromTime t + 1 \<le> y" by simp
    then have "DayFromYear (YearFromTime t + 1) \<le> DayFromYear y" by (rule DayFromYear_mono)
    then show False using a YearFromTime_bounds(2)[of t] by linarith
  qed
next
  assume "y \<le> YearFromTime t"
  then have "DayFromYear y \<le> DayFromYear (YearFromTime t)" by (rule DayFromYear_mono)
  then show "DayFromYear y \<le> Day t" using YearFromTime_bounds(1)[of t] by linarith
qed

text \<open>In time values: the year is the largest whose first instant is at or before \<open>t\<close>.\<close>

lemma TimeFromYear_le: "msPerDay * DayFromYear y \<le> t \<longleftrightarrow> y \<le> YearFromTime t"
proof -
  have p: "(0::int) < msPerDay" by (simp add: msPerDay_def)
  have b: "msPerDay * Day t \<le> t" "t - (msPerDay - 1) \<le> msPerDay * Day t"
    unfolding Day_def by (rule div_bounds[OF p])+
  have "msPerDay * DayFromYear y \<le> t \<longleftrightarrow> DayFromYear y \<le> Day t"
  proof
    assume a: "msPerDay * DayFromYear y \<le> t"
    show "DayFromYear y \<le> Day t"
    proof (rule ccontr)
      assume "\<not> DayFromYear y \<le> Day t"
      then have "Day t + 1 \<le> DayFromYear y" by simp
      then have "msPerDay * (Day t + 1) \<le> msPerDay * DayFromYear y"
        using p by (intro mult_left_mono) simp_all
      then have "msPerDay * Day t + msPerDay \<le> t" using a by (simp add: algebra_simps)
      then show False using b(2) by linarith
    qed
  next
    assume "DayFromYear y \<le> Day t"
    then have "msPerDay * DayFromYear y \<le> msPerDay * Day t"
      using p by (intro mult_left_mono) simp_all
    then show "msPerDay * DayFromYear y \<le> t" using b(1) by linarith
  qed
  then show ?thesis by (simp add: YearFromTime_greatest)
qed

lemma Day_midnight: "Day (d * msPerDay) = d"
  by (simp add: Day_def msPerDay_def)

lemma MonthStart_range:
  assumes "0 \<le> m" "m \<le> 11"
  shows "0 \<le> MonthStart y m" "MonthStart y m + DaysInMonth y m \<le> DaysInYear y"
  using assms DaysInYear_cases[of y]
  by (auto simp: MonthStart_def DaysInMonth_def Let_def)

lemma month_cases:
  fixes m :: int
  assumes "0 \<le> m" "m \<le> 11"
  obtains "m = 0" | "m = 1" | "m = 2" | "m = 3" | "m = 4" | "m = 5" | "m = 6"
    | "m = 7" | "m = 8" | "m = 9" | "m = 10" | "m = 11"
proof -
  have "m = 0 \<or> m = 1 \<or> m = 2 \<or> m = 3 \<or> m = 4 \<or> m = 5 \<or> m = 6
    \<or> m = 7 \<or> m = 8 \<or> m = 9 \<or> m = 10 \<or> m = 11"
    using assms by presburger
  then show thesis using that by blast
qed

lemma MonthStart_next:
  assumes "0 \<le> m" "m < 11"
  shows "MonthStart y (m + 1) = MonthStart y m + DaysInMonth y m"
proof -
  have "0 \<le> m" "m \<le> 11" using assms by simp_all
  then show ?thesis
    using DaysInYear_cases[of y] assms
    by (cases rule: month_cases) (auto simp: MonthStart_def DaysInMonth_def Let_def)
qed

lemma MonthStart_last: "MonthStart y 11 + DaysInMonth y 11 = DaysInYear y"
  using DaysInYear_cases[of y] by (auto simp: MonthStart_def DaysInMonth_def Let_def)

text \<open>Year, month and date of day \<open>k\<close> of month \<open>m\<close> of year \<open>y\<close>.\<close>

lemma civil_from_day:
  assumes m: "0 \<le> m" "m \<le> 11" and k: "1 \<le> k" "k \<le> DaysInMonth y m"
    and t: "Day t = DayFromYear y + MonthStart y m + k - 1"
  shows "YearFromTime t = y" "MonthFromTime t = m" "DateFromTime t = k"
proof -
  have r: "0 \<le> MonthStart y m" "MonthStart y m + DaysInMonth y m \<le> DaysInYear y"
    using MonthStart_range[OF m] by simp_all
  have "DayFromYear y \<le> Day t" using t r k by linarith
  moreover have "Day t < DayFromYear (y + 1)"
    unfolding DayFromYear_Suc using t r k by linarith
  ultimately show Y: "YearFromTime t = y" by (rule YearFromTime_unique)
  have W: "DayWithinYear t = MonthStart y m + k - 1"
    by (simp add: DayWithinYear_def Y t)
  have L: "InLeapYear t = (if DaysInYear y = 366 then 1 else 0)"
    by (simp add: InLeapYear_def Y)
  from m show M: "MonthFromTime t = m"
    using k by (cases rule: month_cases) (auto simp: MonthFromTime_def W L MonthStart_def DaysInMonth_def Let_def)
  show "DateFromTime t = k"
    unfolding DateFromTime_def M W L Let_def
    using m by (auto simp: MonthStart_def)
qed

text \<open>
  The day that \<open>MakeDay\<close> takes for the first of month \<open>mn\<close> of year \<open>ym\<close> has that year
  and month and the date 1, as ECMA-262 asks of it.
\<close>

lemma MakeDay_finds:
  assumes "0 \<le> mn" "mn \<le> 11" "Day t = DayFromYear ym + MonthStart ym mn"
  shows "YearFromTime t = ym \<and> MonthFromTime t = mn \<and> DateFromTime t = 1"
proof -
  have k: "(1::int) \<le> 1" "1 \<le> DaysInMonth ym mn" by (simp_all add: DaysInMonth_def)
  have D: "Day t = DayFromYear ym + MonthStart ym mn + 1 - 1" using assms(3) by simp
  show ?thesis using civil_from_day[OF assms(1,2) k D] by simp
qed

text \<open>Every time value has a date between 1 and 31.\<close>

lemma DateFromTime_range: "1 \<le> DateFromTime t" "DateFromTime t \<le> 31"
proof -
  have "0 \<le> DayWithinYear t" "DayWithinYear t < DaysInYear (YearFromTime t)"
    using YearFromTime_bounds[of t] by (simp_all add: DayWithinYear_def DayFromYear_Suc)
  then show "1 \<le> DateFromTime t" "DateFromTime t \<le> 31"
    using DaysInYear_cases[of "YearFromTime t"]
    by (auto simp: DateFromTime_def MonthFromTime_def InLeapYear_def Let_def)
qed

section \<open>The Dates that \<open>calendar\<close> builds\<close>

lemma MakeDay_eq:
  assumes "- 1000000 \<le> Y" "Y \<le> 1000000" "- 10000000 \<le> m" "m \<le> 10000000"
  shows "MakeDay (Some Y) (Some m) (Some k) =
           Some (DayFromYear (Y + m div 12) + MonthStart (Y + m div 12) (m mod 12) + k - 1)"
  using assms by (simp add: MakeDay_def Let_def)


lemma MakeDay_month:
  assumes "0 \<le> m" "m \<le> 11" "- 1000000 \<le> Y" "Y \<le> 1000000"
  shows "MakeDay (Some Y) (Some m) (Some k) = Some (DayFromYear Y + MonthStart Y m + k - 1)"
proof -
  have "m div 12 = 0" "m mod 12 = m" using assms by simp_all
  then show ?thesis using assms MakeDay_eq[of Y m k] by simp
qed

lemma MakeDay_12:
  assumes "- 1000000 \<le> Y" "Y \<le> 1000000"
  shows "MakeDay (Some Y) (Some 12) (Some k) = Some (DayFromYear (Y + 1) + k - 1)"
  using assms MakeDay_eq[of Y 12 k] by (simp add: MonthStart_def)

lemma in_range_bounds: "in_range Y \<Longrightarrow> - 1000000 \<le> Y" "in_range Y \<Longrightarrow> Y \<le> 1000000"
  by (simp_all add: in_range_def)

lemma MakeFullYear_Some: "MakeFullYear (Some y) = Some (FullYear y)"
  by (simp add: MakeFullYear_def FullYear_def)

lemma new_Date_clip:
  assumes "MakeDay (Some (FullYear y)) m k = Some d" "- 100000000 \<le> d" "d \<le> 100000000"
  shows "new_Date (Some y) m k = Some (d * msPerDay)"
  using assms by (simp add: new_Date_def MakeFullYear_Some MakeDate_def TimeClip_def msPerDay_def)




lemma in_range_FullYear: "in_range y \<Longrightarrow> in_range (FullYear y)"
  by (auto simp: in_range_def FullYear_def)

lemma in_range_days:
  assumes "in_range Y"
  shows "- 99999900 \<le> DayFromYear Y" "DayFromYear Y \<le> 99999400"
proof -
  have Y: "- 271820 \<le> Y" "Y \<le> 275759" using assms by (simp_all add: in_range_def)
  have "146097 * (- 271820 - 1970) \<le> 146097 * (Y - 1970)" using Y by simp
  then have "400 * (- 99999900) \<le> 400 * DayFromYear Y"
    using DayFromYear_bounds(2)[of Y] by simp
  then show "- 99999900 \<le> DayFromYear Y" by simp
  have "146097 * (Y - 1970) \<le> 146097 * (275759 - 1970)" using Y by simp
  then have "400 * DayFromYear Y \<le> 400 * 99999400"
    using DayFromYear_bounds(1)[of Y] by simp
  then show "DayFromYear Y \<le> 99999400" by simp
qed

lemma DaysInMonth_range: "28 \<le> DaysInMonth y m" "DaysInMonth y m \<le> 31"
  by (simp_all add: DaysInMonth_def)

lemma MonthStart_bounds:
  assumes "0 \<le> m" "m \<le> 11" shows "0 \<le> MonthStart y m" "MonthStart y m \<le> 335"
  using assms by (simp_all add: MonthStart_def Let_def)

text \<open>The four Dates that calendar builds, for a month within range.\<close>

lemma new_Date_in_range:
  assumes "in_range y" "0 \<le> m" "m \<le> 11" "0 \<le> k" "k \<le> 31"
  shows "new_Date (Some y) (Some m) (Some k) =
           Some ((DayFromYear (FullYear y) + MonthStart (FullYear y) m + k - 1) * msPerDay)"
proof (rule new_Date_clip)
  show "MakeDay (Some (FullYear y)) (Some m) (Some k) =
          Some (DayFromYear (FullYear y) + MonthStart (FullYear y) m + k - 1)"
    using assms(2,3) in_range_bounds[OF in_range_FullYear[OF assms(1)]] by (rule MakeDay_month)
  show "- 100000000 \<le> DayFromYear (FullYear y) + MonthStart (FullYear y) m + k - 1"
    using in_range_days(1)[OF in_range_FullYear[OF assms(1)]] MonthStart_bounds(1)[OF assms(2,3), of "FullYear y"] assms(4)
    by linarith
  show "DayFromYear (FullYear y) + MonthStart (FullYear y) m + k - 1 \<le> 100000000"
    using in_range_days(2)[OF in_range_FullYear[OF assms(1)]] MonthStart_bounds(2)[OF assms(2,3), of "FullYear y"] assms(5)
    by linarith
qed

lemma new_Date_next_month:
  assumes "in_range y" "0 \<le> m" "m \<le> 11"
  shows "new_Date (Some y) (Some (m + 1)) (Some 0) =
           Some ((DayFromYear (FullYear y) + MonthStart (FullYear y) m
                    + DaysInMonth (FullYear y) m - 1) * msPerDay)"
proof (cases "m = 11")
  case True
  have d: "DayFromYear (FullYear y + 1) + 0 - 1 =
      DayFromYear (FullYear y) + MonthStart (FullYear y) 11 + DaysInMonth (FullYear y) 11 - 1"
    using MonthStart_last[of "FullYear y"] by (simp add: DayFromYear_Suc)
  have "new_Date (Some y) (Some 12) (Some 0) = Some ((DayFromYear (FullYear y + 1) + 0 - 1) * msPerDay)"
  proof (rule new_Date_clip)
    show "MakeDay (Some (FullYear y)) (Some 12) (Some 0) = Some (DayFromYear (FullYear y + 1) + 0 - 1)"
      using in_range_bounds[OF in_range_FullYear[OF assms(1)]] by (rule MakeDay_12)
    show "- 100000000 \<le> DayFromYear (FullYear y + 1) + 0 - 1"
      using in_range_days(1)[OF in_range_FullYear[OF assms(1)]] DaysInYear_cases[of "FullYear y"]
      by (simp add: DayFromYear_Suc) linarith
    show "DayFromYear (FullYear y + 1) + 0 - 1 \<le> 100000000"
      using in_range_days(2)[OF in_range_FullYear[OF assms(1)]] DaysInYear_cases[of "FullYear y"]
      by (simp add: DayFromYear_Suc) linarith
  qed
  then show ?thesis using True d by simp
next
  case False
  then have m: "0 \<le> m" "m < 11" using assms by simp_all
  have "new_Date (Some y) (Some (m + 1)) (Some 0) =
      Some ((DayFromYear (FullYear y) + MonthStart (FullYear y) (m + 1) + 0 - 1) * msPerDay)"
    using assms(1) m by (intro new_Date_in_range) simp_all
  then show ?thesis using MonthStart_next[OF m, of "FullYear y"] by simp
qed

lemma getDay_Some: "getDay (Some (d * msPerDay)) = Some ((d + 4) mod 7)"
  by (simp add: getDay_def WeekDay_def Day_midnight)

lemma firstDayofMonth_eq:
  assumes "in_range y" "0 \<le> m" "m \<le> 11"
  shows "getDay (new_Date (Some y) (Some m) (Some 1)) =
           Some ((DayFromYear (FullYear y) + MonthStart (FullYear y) m + 4) mod 7)"
  using new_Date_in_range[OF assms, of 1] by (simp add: getDay_Some)

lemma lastDateofMonth_eq:
  assumes "in_range y" "0 \<le> m" "m \<le> 11"
  shows "getDate (new_Date (Some y) (Some (m + 1)) (Some 0)) = Some (DaysInMonth (FullYear y) m)"
proof -
  define t where "t = (DayFromYear (FullYear y) + MonthStart (FullYear y) m
                    + DaysInMonth (FullYear y) m - 1) * msPerDay"
  have "Day t = DayFromYear (FullYear y) + MonthStart (FullYear y) m + DaysInMonth (FullYear y) m - 1"
    unfolding t_def by (rule Day_midnight)
  then have "DateFromTime t = DaysInMonth (FullYear y) m"
    using assms(2,3) DaysInMonth_range(1)[of "FullYear y" m]
    by (intro civil_from_day(3)[where y = "FullYear y" and m = m]) simp_all
  then show ?thesis
    using new_Date_next_month[OF assms] by (simp add: getDate_def t_def)
qed

lemma lastDayofMonth_eq:
  assumes "in_range y" "0 \<le> m" "m \<le> 11"
  shows "getDay (new_Date (Some y) (Some m) (Some (DaysInMonth (FullYear y) m))) =
           Some ((DayFromYear (FullYear y) + MonthStart (FullYear y) m
                    + DaysInMonth (FullYear y) m + 3) mod 7)"
proof -
  have "new_Date (Some y) (Some m) (Some (DaysInMonth (FullYear y) m)) =
      Some ((DayFromYear (FullYear y) + MonthStart (FullYear y) m + DaysInMonth (FullYear y) m - 1) * msPerDay)"
    using assms DaysInMonth_range[of "FullYear y" m] by (intro new_Date_in_range) simp_all
  moreover have "DayFromYear (FullYear y) + MonthStart (FullYear y) m + DaysInMonth (FullYear y) m - 1 + 4
      = DayFromYear (FullYear y) + MonthStart (FullYear y) m + DaysInMonth (FullYear y) m + 3"
    by simp
  ultimately show ?thesis by (simp only: getDay_Some)
qed

lemma lastDateofLastMonth_eq:
  assumes "in_range y" "0 \<le> m" "m \<le> 11"
  shows "getDate (new_Date (Some y) (Some m) (Some 0)) = Some (DaysInPrevMonth (FullYear y) m)"
proof -
  define Y where "Y = FullYear y"
  define t where "t = (DayFromYear Y + MonthStart Y m + 0 - 1) * msPerDay"
  have D: "Day t = DayFromYear Y + MonthStart Y m - 1"
    unfolding t_def using Day_midnight[of "DayFromYear Y + MonthStart Y m + 0 - 1"] by simp
  have N: "new_Date (Some y) (Some m) (Some 0) = Some t"
    unfolding t_def Y_def using assms by (intro new_Date_in_range) simp_all
  have "DateFromTime t = DaysInPrevMonth Y m"
  proof (cases "m = 0")
    case True
    have "DayFromYear Y = DayFromYear (Y - 1) + DaysInYear (Y - 1)"
      using DayFromYear_Suc[of "Y - 1"] by simp
    then have "Day t = DayFromYear (Y - 1) + MonthStart (Y - 1) 11 + DaysInMonth (Y - 1) 11 - 1"
      using D True MonthStart_last[of "Y - 1"] by (simp add: MonthStart_def)
    then have "DateFromTime t = DaysInMonth (Y - 1) 11"
      using DaysInMonth_range(1)[of "Y - 1" 11]
      by (intro civil_from_day(3)[where y = "Y - 1" and m = 11]) simp_all
    then show ?thesis using True by (simp add: DaysInPrevMonth_def)
  next
    case False
    then have m: "0 \<le> m - 1" "m - 1 < 11" using assms by simp_all
    have "MonthStart Y m = MonthStart Y (m - 1) + DaysInMonth Y (m - 1)"
      using MonthStart_next[OF m, of Y] by simp
    then have "Day t = DayFromYear Y + MonthStart Y (m - 1) + DaysInMonth Y (m - 1) - 1"
      using D by simp
    then have "DateFromTime t = DaysInMonth Y (m - 1)"
      using m DaysInMonth_range(1)[of Y "m - 1"]
      by (intro civil_from_day(3)[where y = Y and m = "m - 1"]) simp_all
    then show ?thesis using False by (simp add: DaysInPrevMonth_def)
  qed
  then show ?thesis using N by (simp add: getDate_def Y_def)
qed

section \<open>The loops and the grid\<close>

text \<open>The three loops, as lists.\<close>

lemma prev_days_eq:
  "0 \<le> i \<Longrightarrow> prev_days (Some p) i liTag =
     liTag @ map (\<lambda>k. Li ''inactive'' (Some k)) [p - i + 1..p]"
proof (induction "Some p :: num" i liTag rule: prev_days.induct)
  case (1 i liTag)
  show ?case
  proof (cases "i > 0")
    case True
    have u: "[p - i + 1..p] = (p - i + 1) # [p - (i - 1) + 1..p]"
      using True by (subst upto_rec1) (simp_all add: algebra_simps)
    have "prev_days (Some p) i liTag =
        prev_days (Some p) (i - 1) (liTag @ [Li ''inactive'' (Some (p - i + 1))])"
      using True by (subst prev_days.simps) (simp add: num_add_def num_sub_def)
    also have "\<dots> = (liTag @ [Li ''inactive'' (Some (p - i + 1))])
        @ map (\<lambda>k. Li ''inactive'' (Some k)) [p - (i - 1) + 1..p]"
      using "1.hyps"[OF True] True by (simp add: num_add_def num_sub_def)
    finally show ?thesis unfolding u by simp
  next
    case False
    then have "i = 0" using "1.prems" by simp
    then show ?thesis by (subst prev_days.simps) simp
  qed
qed

lemma prev_days_inactive:
  "\<exists>cs. prev_days p i liTag = liTag @ cs \<and> (\<forall>c \<in> set cs. className c = ''inactive'')"
proof (induction p i liTag rule: prev_days.induct)
  case (1 p i liTag)
  show ?case
  proof (cases "i > 0")
    case True
    from "1.IH"[OF True] obtain cs where
      cs: "prev_days p (i - 1) (liTag @ [Li ''inactive'' (num_add (num_sub p (Some i)) (Some 1))]) =
             (liTag @ [Li ''inactive'' (num_add (num_sub p (Some i)) (Some 1))]) @ cs"
        "\<forall>c \<in> set cs. className c = ''inactive''" by blast
    have "prev_days p i liTag = liTag @ (Li ''inactive'' (num_add (num_sub p (Some i)) (Some 1)) # cs)"
      using True cs(1) by (subst prev_days.simps) simp
    then show ?thesis using cs(2) by (intro exI[of _ "Li ''inactive'' (num_add (num_sub p (Some i)) (Some 1)) # cs"]) simp
  next
    case False
    then show ?thesis by (subst prev_days.simps) simp
  qed
qed

text \<open>
  Only the day \<open>i\<close> equal to \<open>date.getDate()\<close> reads the clock: where no such day is
  left, the loop appends plain cells, whatever the count of readings.
\<close>

lemma month_days_plain:
  assumes "\<And>j. i \<le> j \<Longrightarrow> \<not> strict_eq (Some j) (getDate (date st))"
  shows "month_days clock st n i k liTag = liTag @ map (\<lambda>j. Li '''' (Some j)) [i..n]"
  using assms
proof (induction clock st n i k liTag rule: month_days.induct)
  case (1 clock st n i k liTag)
  show ?case
  proof (cases "i \<le> n")
    case True
    have u: "[i..n] = i # [i + 1..n]" using True by (rule upto_rec1)
    have ni: "\<not> strict_eq (Some i) (getDate (date st))" using "1.prems"[of i] by simp
    have "month_days clock st n i k liTag =
        month_days clock st n (i + 1) k (liTag @ [Li '''' (Some i)])"
      by (subst month_days.simps) (simp only: True ni if_True simp_thms)
    also have "\<dots> = (liTag @ [Li '''' (Some i)]) @ map (\<lambda>j. Li '''' (Some j)) [i + 1..n]"
      using "1.prems" by (intro "1.IH"(1)[OF True ni]) simp
    finally show ?thesis unfolding u by simp
  next
    case False
    then show ?thesis by (subst month_days.simps) simp
  qed
qed

text \<open>
  So one run of the loop reads the clock at most twice, and its cells are those of
  \<open>day_class\<close> at the two readings that follow the \<open>k\<close> made before.
\<close>

lemma day_class_plain:
  "\<not> strict_eq (Some j) (getDate (date st)) \<Longrightarrow> day_class t0 t1 st j = ''''"
  by (simp add: day_class_def)

lemma month_days_eq:
  "month_days clock st n i k liTag =
     liTag @ map (\<lambda>j. Li (day_class (clock k) (clock (k + 1)) st j) (Some j)) [i..n]"
proof (induction clock st n i k liTag rule: month_days.induct)
  case (1 clock st n i k liTag)
  show ?case
  proof (cases "i \<le> n")
    case False
    then show ?thesis by (subst month_days.simps) simp
  next
    case True
    have u: "[i..n] = i # [i + 1..n]" using True by (rule upto_rec1)
    show ?thesis
    proof (cases "strict_eq (Some i) (getDate (date st))")
      case False
      have "month_days clock st n i k liTag =
          month_days clock st n (i + 1) k (liTag @ [Li '''' (Some i)])"
        by (subst month_days.simps) (simp only: True False if_True simp_thms)
      also have "\<dots> = (liTag @ [Li '''' (Some i)])
          @ map (\<lambda>j. Li (day_class (clock k) (clock (k + 1)) st j) (Some j)) [i + 1..n]"
        by (rule "1.IH"(1)[OF True False])
      finally show ?thesis unfolding u using False by (simp add: day_class_plain)
    next
      case today: True
      then have d: "getDate (date st) = Some i" by (simp add: strict_eq_def split: option.splits)
      have later: "\<And>j. i + 1 \<le> j \<Longrightarrow> \<not> strict_eq (Some j) (getDate (date st))"
        by (simp add: d strict_eq_def)
      have rest: "\<And>k'. month_days clock st n (i + 1) k' (liTag @ [Li c (Some i)])
          = (liTag @ [Li c (Some i)]) @ map (\<lambda>j. Li '''' (Some j)) [i + 1..n]" for c
        using later by (rule month_days_plain)
      have plain: "map (\<lambda>j. Li (day_class (clock k) (clock (k + 1)) st j) (Some j)) [i + 1..n]
          = map (\<lambda>j. Li '''' (Some j)) [i + 1..n]"
      proof (rule map_cong[OF refl])
        fix j assume "j \<in> set [i + 1..n]"
        then have "i + 1 \<le> j" by simp
        then have "\<not> strict_eq (Some j) (getDate (date st))" by (rule later)
        then have "day_class (clock k) (clock (k + 1)) st j = ''''" by (rule day_class_plain)
        then show "Li (day_class (clock k) (clock (k + 1)) st j) (Some j) = Li '''' (Some j)"
          by (rule arg_cong2[OF _ refl])
      qed
      have "month_days clock st n i k liTag =
          (liTag @ [Li (day_class (clock k) (clock (k + 1)) st i) (Some i)])
            @ map (\<lambda>j. Li '''' (Some j)) [i + 1..n]"
      proof (cases "strict_eq (currMonth st) (getMonth (Some (clock k)))")
        case False
        have "month_days clock st n i k liTag =
            month_days clock st n (i + 1) (k + 1) (liTag @ [Li '''' (Some i)])"
          by (subst month_days.simps) (simp only: True today False if_True if_False simp_thms)
        moreover have "day_class (clock k) (clock (k + 1)) st i = ''''"
          using False by (simp add: day_class_def)
        ultimately show ?thesis using rest by simp
      next
        case month: True
        have "month_days clock st n i k liTag =
            month_days clock st n (i + 1) (k + 2)
              (liTag @ [Li (if strict_eq (currYear st) (getFullYear (Some (clock (k + 1))))
                               then ''active'' else '''') (Some i)])"
          by (subst month_days.simps) (simp only: True today month if_True if_False simp_thms Let_def)
        moreover have "day_class (clock k) (clock (k + 1)) st i =
            (if strict_eq (currYear st) (getFullYear (Some (clock (k + 1)))) then ''active'' else '''')"
          using today month by (simp add: day_class_def)
        ultimately show ?thesis using rest by simp
      qed
      also have "\<dots> = (liTag @ [Li (day_class (clock k) (clock (k + 1)) st i) (Some i)])
            @ map (\<lambda>j. Li (day_class (clock k) (clock (k + 1)) st j) (Some j)) [i + 1..n]"
        by (simp only: plain)
      also have "\<dots> = liTag @ map (\<lambda>j. Li (day_class (clock k) (clock (k + 1)) st j) (Some j)) [i..n]"
        unfolding u by (simp only: list.map append_assoc append_Cons append_Nil)
      finally show ?thesis .
    qed
  qed
qed

lemma month_days_run: "month_days clock st n 1 0 liTag = liTag @ day_run (clock 0) (clock 1) st n"
  using month_days_eq[of clock st n 1 0 liTag] by (simp add: day_run_def)

lemma next_days_eq:
  "next_days w i liTag = liTag @ map (\<lambda>k. Li ''inactive'' (Some (k - w + 1))) [i..5]"
proof (induction w i liTag rule: next_days.induct)
  case (1 w i liTag)
  show ?case
  proof (cases "i < 6")
    case True
    have u: "[i..5] = i # [i + 1..5]" using True by (intro upto_rec1) simp
    have "next_days w i liTag = next_days w (i + 1) (liTag @ [Li ''inactive'' (Some (i - w + 1))])"
      using True by (subst next_days.simps) simp
    also have "\<dots> = (liTag @ [Li ''inactive'' (Some (i - w + 1))])
        @ map (\<lambda>k. Li ''inactive'' (Some (k - w + 1))) [i + 1..5]"
      using "1.IH"[OF True] by simp
    finally show ?thesis unfolding u by simp
  next
    case False
    then show ?thesis by (subst next_days.simps) simp
  qed
qed

lemma map_upto_shift: "map (\<lambda>k. g (k + c)) [a..b] = map g [a + c..b + c]"
proof (induction "nat (b - a + 1)" arbitrary: a)
  case 0
  then have "b < a" by simp
  then show ?case by simp
next
  case (Suc n)
  then have le: "a \<le> b" by simp
  have n: "n = nat (b - (a + 1) + 1)" using Suc.hyps(2) by simp
  have l: "[a..b] = a # [a + 1..b]" using le by (rule upto_rec1)
  have r: "[a + c..b + c] = (a + c) # [a + 1 + c..b + c]"
    using le by (subst upto_rec1) (simp_all add: algebra_simps)
  show ?case unfolding l r using Suc.hyps(1)[OF n] by simp
qed

lemma next_days_run: "next_days w w liTag = liTag @ inactive_run 1 (6 - w)"
proof -
  have "map (\<lambda>k. Li ''inactive'' (Some (k - w + 1))) [w..5] =
      map (\<lambda>k. Li ''inactive'' (Some (k + (1 - w)))) [w..5]" by (simp add: algebra_simps)
  also have "\<dots> = map (\<lambda>k. Li ''inactive'' (Some k)) [w + (1 - w)..5 + (1 - w)]"
    by (rule map_upto_shift)
  also have "\<dots> = inactive_run 1 (6 - w)"
    unfolding inactive_run_def by (simp add: algebra_simps)
  finally show ?thesis by (simp add: next_days_eq)
qed

lemma trailing_weekday:
  fixes D L :: int
  shows "(D + L + 3) mod 7 = (((D + 4) mod 7) + L - 1) mod 7"
proof -
  have "(((D + 4) mod 7) + L - 1) mod 7 = (((D + 4) mod 7) + (L - 1)) mod 7" by (simp add: algebra_simps)
  also have "\<dots> = ((D + 4) + (L - 1)) mod 7" by (simp only: mod_add_left_eq)
  also have "(D + 4) + (L - 1) = D + L + 3" by simp
  finally show ?thesis by simp
qed

text \<open>The grid of a month within range.\<close>

lemma calendar_grid:
  assumes "in_range y" "0 \<le> m" "m \<le> 11" "currYear st = Some y" "currMonth st = Some m"
  shows "daysTag_innerHTML (calendar clock st) =
     inactive_run (DaysInPrevMonth (FullYear y) m - FirstWeekDay (FullYear y) m + 1) (DaysInPrevMonth (FullYear y) m)
     @ day_run (clock 0) (clock 1) st (DaysInMonth (FullYear y) m)
     @ inactive_run 1 (6 - (FirstWeekDay (FullYear y) m + DaysInMonth (FullYear y) m - 1) mod 7)"
proof -
  have f: "getDay (new_Date (currYear st) (currMonth st) (Some 1)) = Some (FirstWeekDay (FullYear y) m)"
    using firstDayofMonth_eq[OF assms(1-3)] assms(4,5) by (simp add: FirstWeekDay_def)
  have L: "getDate (new_Date (currYear st) (num_add (currMonth st) (Some 1)) (Some 0)) =
      Some (DaysInMonth (FullYear y) m)"
    using lastDateofMonth_eq[OF assms(1-3)] assms(4,5) by (simp add: num_add_def)
  have w: "getDay (new_Date (currYear st) (currMonth st) (Some (DaysInMonth (FullYear y) m))) =
      Some ((FirstWeekDay (FullYear y) m + DaysInMonth (FullYear y) m - 1) mod 7)"
    using lastDayofMonth_eq[OF assms(1-3)] assms(4,5)
    by (simp add: FirstWeekDay_def trailing_weekday)
  have P: "getDate (new_Date (currYear st) (currMonth st) (Some 0)) =
      Some (DaysInPrevMonth (FullYear y) m)"
    using lastDateofLastMonth_eq[OF assms(1-3)] assms(4,5) by simp
  have f0: "0 \<le> FirstWeekDay (FullYear y) m" by (simp add: FirstWeekDay_def)
  show ?thesis
    unfolding calendar_def Let_def f L w P
    by (simp add: prev_days_eq[OF f0] month_days_run next_days_run inactive_run_def)
qed

lemma FirstWeekDay_range: "0 \<le> FirstWeekDay y m" "FirstWeekDay y m \<le> 6"
  by (simp_all add: FirstWeekDay_def)

text \<open>The grid in general: cells of days between cells of class \<open>inactive\<close>.\<close>

lemma calendar_parts:
  "\<exists>A C n. daysTag_innerHTML (calendar clock st) = A @ day_run (clock 0) (clock 1) st n @ C
      \<and> (\<forall>c \<in> set A. inactive c) \<and> (\<forall>c \<in> set C. inactive c)"
proof -
  define f where "f = getDay (new_Date (currYear st) (currMonth st) (Some 1))"
  define L where "L = getDate (new_Date (currYear st) (num_add (currMonth st) (Some 1)) (Some 0))"
  define w where "w = getDay (new_Date (currYear st) (currMonth st) L)"
  define P where "P = getDate (new_Date (currYear st) (currMonth st) (Some 0))"
  define A where "A = (case f of None \<Rightarrow> [] | Some i \<Rightarrow> prev_days P i [])"
  define n where "n = (case L of None \<Rightarrow> 0 | Some k \<Rightarrow> k)"
  define C where "C = (case w of None \<Rightarrow> [] | Some k \<Rightarrow> inactive_run 1 (6 - k))"
  have A: "\<forall>c \<in> set A. inactive c"
    unfolding A_def inactive_def using prev_days_inactive[of P _ "[]"]
    by (cases f) auto
  have C: "\<forall>c \<in> set C. inactive c"
    unfolding C_def inactive_def inactive_run_def by (cases w) auto
  have B: "(case L of None \<Rightarrow> A | Some k \<Rightarrow> month_days clock st k 1 0 A)
      = A @ day_run (clock 0) (clock 1) st n"
    unfolding n_def by (cases L) (simp_all add: month_days_run day_run_def)
  have "daysTag_innerHTML (calendar clock st) = A @ day_run (clock 0) (clock 1) st n @ C"
    unfolding calendar_def Let_def f_def[symmetric] L_def[symmetric] w_def[symmetric] P_def[symmetric]
    unfolding A_def[symmetric] B C_def
    by (cases w) (simp_all add: next_days_run)
  then show ?thesis using A C by blast
qed

lemma day_run_active: "c \<in> set (day_run t0 t1 st n) \<Longrightarrow> \<not> inactive c"
  by (auto simp: day_run_def inactive_def day_class_def split: if_splits)

lemma parts_active:
  assumes "\<forall>c \<in> set A. inactive c" "\<forall>c \<in> set B. \<not> inactive c" "\<forall>c \<in> set C. inactive c"
  shows "active_cells (A @ B @ C) = B"
proof -
  have d: "dropWhile inactive (A @ B @ C) = dropWhile inactive (B @ C)"
    using assms(1) by simp
  show ?thesis
  proof (cases B)
    case Nil
    have e: "dropWhile inactive (A @ C) = []"
      using assms(1,3) by (auto simp: dropWhile_eq_Nil_conv)
    show ?thesis unfolding active_cells_def Nil by (simp add: e del: dropWhile_append)
  next
    case (Cons b bs)
    then have "dropWhile inactive (B @ C) = B @ C" using assms(2) by simp
    moreover have "takeWhile (\<lambda>c. \<not> inactive c) (B @ C) = B @ takeWhile (\<lambda>c. \<not> inactive c) C"
      using assms(2) by simp
    moreover have "takeWhile (\<lambda>c. \<not> inactive c) C = []"
      using assms(3) by (cases C) simp_all
    ultimately show ?thesis using d by (simp add: active_cells_def)
  qed
qed

lemma parts_leading:
  assumes "\<forall>c \<in> set A. inactive c" "\<forall>c \<in> set B. \<not> inactive c" "B \<noteq> []"
  shows "leading_cells (A @ B @ C) = A"
proof -
  have "takeWhile inactive (A @ B @ C) = A @ takeWhile inactive (B @ C)"
    using assms(1) by simp
  moreover have "takeWhile inactive (B @ C) = []"
    using assms(2,3) by (cases B) simp_all
  ultimately show ?thesis by (simp add: leading_cells_def)
qed

lemma parts_trailing:
  assumes "\<forall>c \<in> set A. inactive c" "\<forall>c \<in> set B. \<not> inactive c" "\<forall>c \<in> set C. inactive c" "B \<noteq> []"
  shows "trailing_cells (A @ B @ C) = C"
proof -
  have "dropWhile inactive (A @ B @ C) = dropWhile inactive (B @ C)"
    using assms(1) by simp
  also have "\<dots> = B @ C" using assms(2,4) by (cases B) simp_all
  finally have "trailing_cells (A @ B @ C) = dropWhile (\<lambda>c. \<not> inactive c) (B @ C)"
    by (simp add: trailing_cells_def)
  also have "\<dots> = dropWhile (\<lambda>c. \<not> inactive c) C"
    using assms(2) by simp
  also have "\<dots> = C" using assms(3) by (cases C) simp_all
  finally show ?thesis .
qed

lemma calendar_view_cong:
  assumes "currYear st = currYear st'" "currMonth st = currMonth st'"
    "getDate (date st) = getDate (date st')"
    "MonthFromTime (clock 0) = MonthFromTime (clock' 0)"
    "YearFromTime (clock 1) = YearFromTime (clock' 1)"
  shows "view (calendar clock st) = view (calendar clock' st')"
proof -
  have "day_class (clock 0) (clock 1) st = day_class (clock' 0) (clock' 1) st'"
    using assms by (simp add: day_class_def fun_eq_iff getMonth_def getFullYear_def)
  then have "day_run (clock 0) (clock 1) st = day_run (clock' 0) (clock' 1) st'"
    by (simp add: day_run_def fun_eq_iff)
  then show ?thesis
    using assms(1,2)
    by (simp add: view_def calendar_def Let_def month_days_run split: option.splits)
qed

lemma length_inactive_run: "length (inactive_run a b) = nat (b - a + 1)"
  by (simp add: inactive_run_def)

lemma length_day_run: "length (day_run t0 t1 st L) = nat L"
  by (simp add: day_run_def)

lemma grid_length:
  fixes f L P n :: int
  assumes "0 \<le> f" "f \<le> 6" "28 \<le> L" "L \<le> 31"
    and n: "n = int (length (inactive_run (P - f + 1) P @ day_run t0 t1 st L
                      @ inactive_run 1 (6 - (f + L - 1) mod 7)))"
  shows "n mod 7 = 0" "L \<le> n" "f + L \<le> n" "n < f + L + 7" "n \<le> 42"
proof -
  define s where "s = f + L - 1"
  define q where "q = s div 7"
  define r where "r = s mod 7"
  have r: "0 \<le> r" "r < 7" unfolding r_def by simp_all
  have e: "s = 7 * q + r" unfolding q_def r_def by simp
  have l1: "int (length (inactive_run (P - f + 1) P)) = f"
    unfolding length_inactive_run using assms(1) by simp
  have l2: "int (length (day_run t0 t1 st L)) = L"
    unfolding length_day_run using assms(3) by simp
  have l3: "int (length (inactive_run 1 (6 - r))) = 6 - r"
    unfolding length_inactive_run using r by simp
  have "n = f + L + (6 - r)"
    unfolding n s_def[symmetric] r_def[symmetric] using l1 l2 l3 by simp
  then have n': "n = s + 1 + (6 - r)" unfolding s_def by simp
  have n7: "n = 7 * q + 7" using n' e by linarith
  then show "n mod 7 = 0" by simp
  have fl: "f + L = s + 1" unfolding s_def by simp
  show "f + L \<le> n" unfolding fl using n' r by linarith
  then show "L \<le> n" using assms(1) by linarith
  show "n < f + L + 7" unfolding fl using n' r by linarith
  have "s \<le> 36" using assms(2,4) unfolding s_def by linarith
  then have "7 * q \<le> 36" using e r by linarith
  then have "q \<le> 5" by linarith
  then show "n \<le> 42" using n7 by linarith
qed

section \<open>The three runs of cells of a grid\<close>

lemma inactive_run_inactive: "c \<in> set (inactive_run a b) \<Longrightarrow> inactive c"
  by (auto simp: inactive_run_def inactive_def)

lemma day_run_nonempty: "1 \<le> L \<Longrightarrow> day_run t0 t1 st L \<noteq> []"
  by (simp add: day_run_def)


lemma innerText_day_run: "map innerText (day_run t0 t1 st L) = map Some [1..L]"
  by (simp add: day_run_def)

text \<open>The three runs of the grid of a month within range, as the observers see them.\<close>

lemma calendar_runs:
  assumes "in_range y" "0 \<le> m" "m \<le> 11" "currYear st = Some y" "currMonth st = Some m"
  shows "leading_cells (daysTag_innerHTML (calendar clock st)) =
           inactive_run (DaysInPrevMonth (FullYear y) m - FirstWeekDay (FullYear y) m + 1) (DaysInPrevMonth (FullYear y) m)"
    and "active_cells (daysTag_innerHTML (calendar clock st)) =
           day_run (clock 0) (clock 1) st (DaysInMonth (FullYear y) m)"
    and "trailing_cells (daysTag_innerHTML (calendar clock st)) =
           inactive_run 1 (6 - (FirstWeekDay (FullYear y) m + DaysInMonth (FullYear y) m - 1) mod 7)"
proof -
  let ?A = "inactive_run (DaysInPrevMonth (FullYear y) m - FirstWeekDay (FullYear y) m + 1) (DaysInPrevMonth (FullYear y) m)"
  let ?B = "day_run (clock 0) (clock 1) st (DaysInMonth (FullYear y) m)"
  let ?C = "inactive_run 1 (6 - (FirstWeekDay (FullYear y) m + DaysInMonth (FullYear y) m - 1) mod 7)"
  have g: "daysTag_innerHTML (calendar clock st) = ?A @ ?B @ ?C" by (rule calendar_grid[OF assms])
  have A: "\<forall>c \<in> set ?A. inactive c" and C: "\<forall>c \<in> set ?C. inactive c"
    by (blast intro: inactive_run_inactive)+
  have B: "\<forall>c \<in> set ?B. \<not> inactive c" by (blast dest: day_run_active)
  have N: "?B \<noteq> []" using DaysInMonth_range(1)[of "FullYear y" m] by (intro day_run_nonempty) simp
  show "leading_cells (daysTag_innerHTML (calendar clock st)) = ?A"
    unfolding g by (rule parts_leading[OF A B N])
  show "active_cells (daysTag_innerHTML (calendar clock st)) = ?B"
    unfolding g by (rule parts_active[OF A B C])
  show "trailing_cells (daysTag_innerHTML (calendar clock st)) = ?C"
    unfolding g by (rule parts_trailing[OF A B C N])
qed

lemma Feb_2024: "in_range 2024" "FullYear 2024 = 2024" "FirstWeekDay 2024 1 = 4"
  "DaysInMonth 2024 1 = 29" "DaysInPrevMonth 2024 1 = 31"
  by (simp_all add: in_range_def FullYear_def FirstWeekDay_def DaysInMonth_def DaysInPrevMonth_def
      DayFromYear_def MonthStart_def DaysInYear_def)


section \<open>The cell of today\<close>

lemma filter_isToday_inactive:
  assumes "\<forall>c \<in> set A. inactive c" shows "filter isToday A = []"
proof -
  have "\<And>c. c \<in> set A \<Longrightarrow> \<not> isToday c"
    using assms by (auto simp: inactive_def isToday_def)
  then show ?thesis by (simp add: filter_empty_conv)
qed

lemma isToday_day_cell:
  "isToday (Li (day_class t0 t1 st k) (Some k)) \<longleftrightarrow>
     strict_eq (Some k) (getDate (date st))
     \<and> strict_eq (currMonth st) (getMonth (Some t0))
     \<and> strict_eq (currYear st) (getFullYear (Some t1))"
  by (simp add: isToday_def day_class_def)

lemma strict_eq_Some: "strict_eq a (Some x) \<longleftrightarrow> a = Some x"
  by (cases a) (simp_all add: strict_eq_def)

lemma today_in_day_run:
  "length (filter isToday (day_run t0 t1 st n)) \<le> 1"
  "filter isToday (day_run t0 t1 st n) \<noteq> [] \<Longrightarrow>
     currMonth st = Some (MonthFromTime t0) \<and> currYear st = Some (YearFromTime t1)"
proof -
  define P where "P = (\<lambda>k. strict_eq (Some k) (getDate (date st))
     \<and> strict_eq (currMonth st) (getMonth (Some t0))
     \<and> strict_eq (currYear st) (getFullYear (Some t1)))"
  have f: "filter isToday (day_run t0 t1 st n) = map (\<lambda>k. Li (day_class t0 t1 st k) (Some k)) (filter P [1..n])"
    unfolding day_run_def filter_map P_def by (simp add: comp_def isToday_day_cell)
  have "{x. P x} \<inter> set [1..n] \<subseteq> {x. Some x = getDate (date st)}"
    unfolding P_def by (auto simp: strict_eq_def split: option.splits)
  also have "\<dots> \<subseteq> (case getDate (date st) of None \<Rightarrow> {} | Some d \<Rightarrow> {d})"
    by (auto split: option.splits)
  finally have "card ({x. P x} \<inter> set [1..n]) \<le> card (case getDate (date st) of None \<Rightarrow> {} | Some d \<Rightarrow> {d})"
    by (intro card_mono) (auto split: option.splits)
  also have "\<dots> \<le> 1" by (simp split: option.splits)
  finally have "length (filter P [1..n]) \<le> 1"
    by (simp add: distinct_length_filter)
  then show "length (filter isToday (day_run t0 t1 st n)) \<le> 1" unfolding f by simp
  assume "filter isToday (day_run t0 t1 st n) \<noteq> []"
  then have "filter P [1..n] \<noteq> []" unfolding f by simp
  then obtain k where "P k" by (auto simp: filter_empty_conv)
  then show "currMonth st = Some (MonthFromTime t0) \<and> currYear st = Some (YearFromTime t1)"
    unfolding P_def by (simp add: strict_eq_Some getMonth_def getFullYear_def)
qed

text \<open>
  The cells that \<open>calendar\<close> marks as today, for every page and clock: there is at most
  one, it is one of the active cells, and there is one only if \<open>currMonth\<close> is the month
  of the first reading of the clock and \<open>currYear\<close> the year of the second.
\<close>

lemma today_cells:
  "length (filter isToday (daysTag_innerHTML (calendar clock st))) \<le> 1"
  "filter isToday (daysTag_innerHTML (calendar clock st))
     = filter isToday (active_cells (daysTag_innerHTML (calendar clock st)))"
  "\<exists>c \<in> set (daysTag_innerHTML (calendar clock st)). isToday c \<Longrightarrow>
     currMonth st = Some (MonthFromTime (clock 0)) \<and> currYear st = Some (YearFromTime (clock 1))"
proof -
  obtain A C n where g: "daysTag_innerHTML (calendar clock st) = A @ day_run (clock 0) (clock 1) st n @ C"
    and A: "\<forall>c \<in> set A. inactive c" and C: "\<forall>c \<in> set C. inactive c"
    using calendar_parts[of clock st] by blast
  have B: "\<forall>c \<in> set (day_run (clock 0) (clock 1) st n). \<not> inactive c"
    by (blast dest: day_run_active)
  have a: "active_cells (daysTag_innerHTML (calendar clock st)) = day_run (clock 0) (clock 1) st n"
    unfolding g by (rule parts_active[OF A B C])
  have f: "filter isToday (daysTag_innerHTML (calendar clock st))
      = filter isToday (day_run (clock 0) (clock 1) st n)"
    unfolding g by (simp add: filter_isToday_inactive[OF A] filter_isToday_inactive[OF C])
  show "length (filter isToday (daysTag_innerHTML (calendar clock st))) \<le> 1"
    unfolding f by (rule today_in_day_run(1))
  show "filter isToday (daysTag_innerHTML (calendar clock st))
        = filter isToday (active_cells (daysTag_innerHTML (calendar clock st)))"
    unfolding a f ..
  assume "\<exists>c \<in> set (daysTag_innerHTML (calendar clock st)). isToday c"
  then have "filter isToday (daysTag_innerHTML (calendar clock st)) \<noteq> []"
    by (simp add: filter_empty_conv)
  then have "filter isToday (day_run (clock 0) (clock 1) st n) \<noteq> []" unfolding f .
  then show "currMonth st = Some (MonthFromTime (clock 0)) \<and> currYear st = Some (YearFromTime (clock 1))"
    by (rule today_in_day_run(2))
qed

section \<open>The click handler\<close>

lemma getDate_now: "getDate (Some now) = Some (DateFromTime now)"
  by (simp add: getDate_def)

lemma num_less_simps:
  "num_less (Some a) (Some b) \<longleftrightarrow> a < b"
  by (simp add: num_less_def)

text \<open>
  The carry of a month outside 0..11 into the year, for a year that a Date reads as it
  is, when the day of the month of the clock is a day of the month carried to.
\<close>

lemma normalize_carry:
  assumes "in_range y" "y < 0 \<or> 99 < y" "m < 0 \<or> 11 < m" "in_range (y + m div 12)"
    "DateFromTime now \<le> DaysInMonth (y + m div 12) (m mod 12)"
    "currYear st = Some y" "currMonth st = Some m"
  shows "normalize now st =
     st\<lparr>date := Some ((DayFromYear (y + m div 12) + MonthStart (y + m div 12) (m mod 12)
                          + DateFromTime now - 1) * msPerDay),
        currYear := Some (y + m div 12), currMonth := Some (m mod 12)\<rparr>"
    and "getDate (Some ((DayFromYear (y + m div 12) + MonthStart (y + m div 12) (m mod 12)
                          + DateFromTime now - 1) * msPerDay)) = Some (DateFromTime now)"
proof -
  define d where "d = DateFromTime now"
  define Y where "Y = y + m div 12"
  define mn where "mn = m mod 12"
  define t where "t = (DayFromYear Y + MonthStart Y mn + d - 1) * msPerDay"
  have d: "1 \<le> d" "d \<le> 31" unfolding d_def by (rule DateFromTime_range)+
  have mn: "0 \<le> mn" "mn \<le> 11" unfolding mn_def by simp_all
  have F: "FullYear y = y" using assms(2) by (auto simp: FullYear_def)
  have q: "12 * (m div 12) \<le> m" "m - (12 - 1) \<le> 12 * (m div 12)"
    by (rule div_bounds; simp)+
  have "- 271820 \<le> y" "y \<le> 275759" "- 271820 \<le> y + m div 12" "y + m div 12 \<le> 275759"
    using assms(1,4) by (simp_all add: in_range_def)
  then have b: "- 1000000 \<le> y" "y \<le> 1000000" "- 10000000 \<le> m" "m \<le> 10000000"
    using q by linarith+
  have ms: "0 \<le> MonthStart Y mn" "MonthStart Y mn \<le> 335"
    by (rule MonthStart_bounds[OF mn])+
  have r: "in_range Y" unfolding Y_def by (rule assms(4))
  have N: "new_Date (Some y) (Some m) (Some d) = Some t"
    unfolding t_def
  proof (rule new_Date_clip)
    show "MakeDay (Some (FullYear y)) (Some m) (Some d) = Some (DayFromYear Y + MonthStart Y mn + d - 1)"
      unfolding F Y_def mn_def by (rule MakeDay_eq[OF b])
    show "- 100000000 \<le> DayFromYear Y + MonthStart Y mn + d - 1"
      using in_range_days(1)[OF r] d ms by linarith
    show "DayFromYear Y + MonthStart Y mn + d - 1 \<le> 100000000"
      using in_range_days(2)[OF r] d ms by linarith
  qed
  have D: "Day t = DayFromYear Y + MonthStart Y mn + d - 1"
    unfolding t_def by (rule Day_midnight)
  have k: "d \<le> DaysInMonth Y mn" using assms(5) unfolding d_def Y_def mn_def .
  have c: "YearFromTime t = Y" "MonthFromTime t = mn" "DateFromTime t = d"
    by (rule civil_from_day[OF mn d(1) k D])+
  have n: "num_less (currMonth st) (Some 0) \<or> num_less (Some 11) (currMonth st)"
    using assms(3,7) by (simp add: num_less_simps)
  show "normalize now st =
     st\<lparr>date := Some ((DayFromYear (y + m div 12) + MonthStart (y + m div 12) (m mod 12)
                          + DateFromTime now - 1) * msPerDay),
        currYear := Some (y + m div 12), currMonth := Some (m mod 12)\<rparr>"
    unfolding d_def[symmetric] Y_def[symmetric] mn_def[symmetric] t_def[symmetric]
    using n assms(6,7) N c
    by (simp add: normalize_def getDate_now d_def[symmetric] getFullYear_def getMonth_def)
  show "getDate (Some ((DayFromYear (y + m div 12) + MonthStart (y + m div 12) (m mod 12)
                          + DateFromTime now - 1) * msPerDay)) = Some (DateFromTime now)"
    unfolding d_def[symmetric] Y_def[symmetric] mn_def[symmetric] t_def[symmetric]
    using c(3) by (simp add: getDate_def)
qed

lemma normalize_in_range:
  assumes "currMonth st = Some m" "0 \<le> m" "m \<le> 11"
  shows "normalize now st = st\<lparr>date := Some now\<rparr>"
  using assms by (simp add: normalize_def num_less_simps)

text \<open>The handler then draws the month carried to.\<close>

lemma carry_view:
  assumes "in_range y" "y < 0 \<or> 99 < y" "m < 0 \<or> 11 < m" "in_range (y + m div 12)"
    "DateFromTime now \<le> DaysInMonth (y + m div 12) (m mod 12)"
  shows "view (calendar clock (normalize now (st\<lparr>currYear := Some y, currMonth := Some m\<rparr>)))
       = view (calendar clock
            (st\<lparr>currYear := Some (y + m div 12), currMonth := Some (m mod 12), date := Some now\<rparr>))"
proof -
  define t where "t = (DayFromYear (y + m div 12) + MonthStart (y + m div 12) (m mod 12)
                          + DateFromTime now - 1) * msPerDay"
  have a: "normalize now (st\<lparr>currYear := Some y, currMonth := Some m\<rparr>) =
      st\<lparr>currYear := Some y, currMonth := Some m, date := Some t,
         currYear := Some (y + m div 12), currMonth := Some (m mod 12)\<rparr>"
    unfolding t_def using assms by (intro normalize_carry(1)) simp_all
  have g: "getDate (Some t) = Some (DateFromTime now)"
    unfolding t_def
    using normalize_carry(2)[OF assms, of "st\<lparr>currYear := Some y, currMonth := Some m\<rparr>"]
    by simp
  show ?thesis
    unfolding a using g by (intro calendar_view_cong) (simp_all add: getDate_now)
qed

text \<open>A click is the change of \<open>currMonth\<close>, the carry, and \<open>calendar\<close> on the readings that follow.\<close>

lemma icon_click_next:
  "currMonth st = Some m \<Longrightarrow>
   icon_click ''next'' clock st = calendar (\<lambda>k. clock (k + 1)) (normalize (clock 0) (st\<lparr>currMonth := Some (m + 1)\<rparr>))"
  by (simp add: icon_click_def num_add_def)

lemma icon_click_prev:
  "currMonth st = Some m \<Longrightarrow>
   icon_click ''prev'' clock st = calendar (\<lambda>k. clock (k + 1)) (normalize (clock 0) (st\<lparr>currMonth := Some (m - 1)\<rparr>))"
  by (simp add: icon_click_def num_sub_def)

section \<open>Years beyond the range of a Date\<close>






section \<open>Every call returns\<close>




text \<open>What \<open>calendar\<close> returns on every page: the label, the variables, and at most 43 cells.\<close>

lemma calendar_frame:
  "currentDate_innerText (calendar clock st) = (months_at (currMonth st), currYear st)"
  "currYear (calendar clock st) = currYear st"
  "currMonth (calendar clock st) = currMonth st"
  "date (calendar clock st) = date st"
  by (simp_all add: calendar_def Let_def)





section \<open>The table of \<open>showCalendar\<close>\<close>

text \<open>Every row and every table that \<open>showCalendar\<close> builds extends what was built before.\<close>

lemma show_row_prefix:
  "\<exists>r. fst (show_row daysInMonth today month year firstDay i j n row) = row @ r"
proof (induction daysInMonth today month year firstDay i j n row rule: show_row.induct)
  case (1 daysInMonth today month year firstDay i j n row)
  show ?case
  proof (cases "j < 7")
    case False
    then show ?thesis by (subst show_row.simps) simp
  next
    case j: True
    show ?thesis
    proof (cases "i = 0 \<and> num_less (Some j) firstDay")
      case True
      from "1.IH"(1)[OF j True] obtain r where
        r: "fst (show_row daysInMonth today month year firstDay i (j + 1) n (row @ [EmptyCell]))
           = (row @ [EmptyCell]) @ r" ..
      have "show_row daysInMonth today month year firstDay i j n row
          = show_row daysInMonth today month year firstDay i (j + 1) n (row @ [EmptyCell])"
        by (subst show_row.simps) (simp only: j True if_True simp_thms)
      then show ?thesis using r by simp
    next
      case nl: False
      show ?thesis
      proof (cases "num_less (daysInMonth month year) (Some n)")
        case True
        have "show_row daysInMonth today month year firstDay i j n row = (row, n)"
          by (subst show_row.simps) (simp only: j nl True if_True if_False simp_thms)
        then show ?thesis by simp
      next
        case False
        define cls where "cls = (if strict_eq (Some n) (getDate today)
                              \<and> strict_eq year (getFullYear today)
                              \<and> strict_eq month (getMonth today)
                           then ''date-picker selected'' else ''date-picker'')"
        from "1.IH"(2)[OF j nl False cls_def] obtain r where
          r: "fst (show_row daysInMonth today month year firstDay i (j + 1) (n + 1)
                 (row @ [DateCell cls n (num_add month (Some 1)) year (months_at month)]))
             = (row @ [DateCell cls n (num_add month (Some 1)) year (months_at month)]) @ r" ..
        have "show_row daysInMonth today month year firstDay i j n row
            = show_row daysInMonth today month year firstDay i (j + 1) (n + 1)
                 (row @ [DateCell cls n (num_add month (Some 1)) year (months_at month)])"
          by (subst show_row.simps) (simp only: j nl False if_True if_False Let_def cls_def simp_thms)
        then show ?thesis using r by simp
      qed
    qed
  qed
qed

lemma show_rows_prefix:
  "\<exists>r. show_rows daysInMonth today month year firstDay i n tbl = tbl @ r"
proof (induction daysInMonth today month year firstDay i n tbl rule: show_rows.induct)
  case (1 daysInMonth today month year firstDay i n tbl)
  show ?case
  proof (cases "i < 6")
    case False
    then show ?thesis by (subst show_rows.simps) simp
  next
    case True
    obtain row n' where p: "show_row daysInMonth today month year firstDay i 0 n [] = (row, n')"
      by (cases "show_row daysInMonth today month year firstDay i 0 n []")
    from "1.IH"[OF True p[symmetric]] obtain r where
      "show_rows daysInMonth today month year firstDay (i + 1) n' (tbl @ [row]) = (tbl @ [row]) @ r" ..
    then show ?thesis using True p by (subst show_rows.simps) simp
  qed
qed

lemma showCalendar_first_empty:
  assumes "getDay (new_Date year month (Some 1)) = Some f" "0 < f"
  shows "\<exists>cs. concat (calendar_body (showCalendar daysInMonth today month year)) = EmptyCell # cs"
proof -
  obtain row n' where p: "show_row daysInMonth today month year (Some f) 0 0 1 [] = (row, n')"
    by (cases "show_row daysInMonth today month year (Some f) 0 0 1 []")
  have c: "num_less (Some 0) (Some f)" using assms(2) by (simp add: num_less_def)
  have j: "(0::int) < 7" by simp
  have s: "show_row daysInMonth today month year (Some f) 0 0 1 []
      = show_row daysInMonth today month year (Some f) 0 (0 + 1) 1 ([] @ [EmptyCell])"
    by (subst show_row.simps) (simp only: c j if_True simp_thms)
  obtain r where
    r: "fst (show_row daysInMonth today month year (Some f) 0 (0 + 1) 1 ([] @ [EmptyCell])) = ([] @ [EmptyCell]) @ r"
    using show_row_prefix by blast
  have "row = fst (show_row daysInMonth today month year (Some f) 0 0 1 [])" using p by simp
  then have row: "row = EmptyCell # r" unfolding s r by simp
  obtain rs where
    rs: "show_rows daysInMonth today month year (Some f) (0 + 1) n' ([] @ [row]) = ([] @ [row]) @ rs"
    using show_rows_prefix by blast
  have "show_rows daysInMonth today month year (Some f) 0 1 []
      = show_rows daysInMonth today month year (Some f) (0 + 1) n' ([] @ [row])"
    by (subst show_rows.simps) (simp add: p)
  then have "show_rows daysInMonth today month year (Some f) 0 1 [] = row # rs"
    unfolding rs by simp
  then show ?thesis
    using row by (simp add: showCalendar_def assms(1))
qed

lemma Jan_2024: "in_range 2024" "FirstWeekDay 2024 0 = 1" "DaysInPrevMonth 2024 0 = 31"
  by (simp_all add: in_range_def FullYear_def FirstWeekDay_def DaysInMonth_def DaysInPrevMonth_def
      DayFromYear_def MonthStart_def DaysInYear_def)

lemma January_2024_differs:
  "map li_shown (daysTag_innerHTML (calendar clock (st\<lparr>currYear := Some 2024, currMonth := Some 0\<rparr>)))
     \<noteq> map td_shown (concat (calendar_body (showCalendar daysInMonth today (Some 0) (Some 2024))))"
proof -
  have m: "(0::int) \<le> 0" "(0::int) \<le> 11" by simp_all
  have f: "getDay (new_Date (Some 2024) (Some 0) (Some 1)) = Some 1"
    using firstDayofMonth_eq[OF Jan_2024(1) m] Jan_2024(2) by (simp add: FirstWeekDay_def Feb_2024(2))
  obtain cs where t: "concat (calendar_body (showCalendar daysInMonth today (Some 0) (Some 2024))) = EmptyCell # cs"
    using showCalendar_first_empty[OF f] by auto
  have u: "[31 - 1 + 1..31] = [31::int]" by (simp add: upto_rec_numeral)
  have "daysTag_innerHTML (calendar clock (st\<lparr>currYear := Some 2024, currMonth := Some 0\<rparr>))
      = Li ''inactive'' (Some 31) # day_run (clock 0) (clock 1) (st\<lparr>currYear := Some 2024, currMonth := Some 0\<rparr>) (DaysInMonth 2024 0)
          @ inactive_run 1 (6 - (1 + DaysInMonth 2024 0 - 1) mod 7)"
    using calendar_grid[OF Jan_2024(1) m, of "st\<lparr>currYear := Some 2024, currMonth := Some 0\<rparr>" clock]
    by (simp add: Jan_2024 Feb_2024(2) inactive_run_def u)
  then show ?thesis
    unfolding t by (simp add: li_shown_def td_shown_def)
qed

section \<open>Clicks through a year\<close>

text \<open>
  A click on the next icon that stays within the months 0..11 leaves \<open>currYear\<close>, adds one
  to \<open>currMonth\<close> and stores the reading of the clock; so do \<open>n\<close> such clicks.
\<close>

lemma click_next_frame:
  assumes "currMonth st = Some m" "0 \<le> m + 1" "m + 1 \<le> 11"
  shows "currYear (icon_click ''next'' clock st) = currYear st"
    and "currMonth (icon_click ''next'' clock st) = Some (m + 1)"
    and "date (icon_click ''next'' clock st) = Some (clock 0)"
proof -
  have n: "normalize (clock 0) (st\<lparr>currMonth := Some (m + 1)\<rparr>)
      = st\<lparr>currMonth := Some (m + 1), date := Some (clock 0)\<rparr>"
    using assms(2,3) by (intro normalize_in_range[where m = "m + 1"]) simp_all
  show "currYear (icon_click ''next'' clock st) = currYear st"
    "currMonth (icon_click ''next'' clock st) = Some (m + 1)"
    "date (icon_click ''next'' clock st) = Some (clock 0)"
    unfolding icon_click_next[OF assms(1)] calendar_frame n by simp_all
qed

lemma clicks_next:
  assumes "currMonth st = Some m" "0 \<le> m"
  shows "m + int n \<le> 11 \<Longrightarrow>
     currYear ((icon_click ''next'' clock ^^ n) st) = currYear st
     \<and> currMonth ((icon_click ''next'' clock ^^ n) st) = Some (m + int n)"
proof (induction n)
  case 0
  show ?case using assms(1) by simp
next
  case (Suc n)
  then have b: "m + int n \<le> 11" "0 \<le> m + int n + 1" "m + int n + 1 \<le> 11"
    using assms(2) by simp_all
  note IH = Suc.IH[OF b(1)]
  note f = click_next_frame[OF IH[THEN conjunct2] b(2,3), of clock]
  show ?case using f(1,2) IH by (simp add: add.assoc)
qed

text \<open>
  The click from November 2025 into December, on the 31st of a December, reading the
  clock in December for the month and in 2025 for the year.
\<close>

lemma click_into_December_2025:
  assumes "currYear st = Some 2025" "currMonth st = Some 10"
    "DateFromTime (clock 0) = 31" "MonthFromTime (clock 1) = 11" "YearFromTime (clock 2) = 2025"
  shows "currYear (icon_click ''next'' clock st) = Some 2025"
    and "currMonth (icon_click ''next'' clock st) = Some 11"
    and "filter isToday (daysTag_innerHTML (icon_click ''next'' clock st)) = [Li ''active'' (Some 31)]"
proof -
  define lit where "lit = \<lparr>currYear = Some 2025, currMonth = Some 11, date = Some 1735689599999,
      currentDate_innerText = (None, None), daysTag_innerHTML = []\<rparr>"
  have m: "(0::int) \<le> 10 + 1" "(10::int) + 1 \<le> 11" by simp_all
  show "currYear (icon_click ''next'' clock st) = Some 2025"
    "currMonth (icon_click ''next'' clock st) = Some 11"
    using click_next_frame(1,2)[OF assms(2) m, of clock] assms(1) by simp_all
  have n: "normalize (clock 0) (st\<lparr>currMonth := Some (10 + 1)\<rparr>)
      = st\<lparr>currMonth := Some (10 + 1), date := Some (clock 0)\<rparr>"
    by (intro normalize_in_range[where m = "10 + 1"]) simp_all
  have e: "getDate (Some 1735689599999) = Some 31" "MonthFromTime 1735689599999 = 11"
    "YearFromTime 1735689600000 = 2025"
    by code_simp+
  have "view (calendar (\<lambda>k. clock (k + 1)) (st\<lparr>currMonth := Some (10 + 1), date := Some (clock 0)\<rparr>))
      = view (calendar (turning 1735689599999 1 1735689600000) lit)"
    using assms e
    by (intro calendar_view_cong) (simp_all add: lit_def getDate_now turning_def numeral_2_eq_2)
  then have "daysTag_innerHTML (icon_click ''next'' clock st)
      = daysTag_innerHTML (calendar (turning 1735689599999 1 1735689600000) lit)"
    unfolding icon_click_next[OF assms(2)] n by (simp add: view_def)
  moreover have "filter isToday (daysTag_innerHTML (calendar (turning 1735689599999 1 1735689600000) lit))
      = [Li ''active'' (Some 31)]"
    unfolding lit_def by code_simp
  ultimately show "filter isToday (daysTag_innerHTML (icon_click ''next'' clock st)) = [Li ''active'' (Some 31)]"
    by simp
qed

text \<open>Twelve clicks from the page loaded on 31 December 2024.\<close>

lemma eleven_clicks:
  "currYear ((icon_click ''next'' (steady 1735689599000) ^^ 11) (on_load 1735689599000)) = Some 2025"
  "currMonth ((icon_click ''next'' (steady 1735689599000) ^^ 11) (on_load 1735689599000)) = Some 10"
proof -
  define st1 where "st1 = icon_click ''next'' (steady 1735689599000) (on_load 1735689599000)"
  have 1: "currYear st1 = Some 2025" "currMonth st1 = Some 0"
    unfolding st1_def by code_simp+
  have s: "(icon_click ''next'' (steady 1735689599000) ^^ 11) (on_load 1735689599000)
      = (icon_click ''next'' (steady 1735689599000) ^^ 10) st1"
  proof -
    have "(11::nat) = Suc 10" by simp
    then show ?thesis unfolding st1_def by (simp only: funpow_Suc_right comp_apply)
  qed
  have "(0::int) + int 10 \<le> 11" by simp
  note c = clicks_next[OF 1(2) order_refl this, of "steady 1735689599000"]
  show "currYear ((icon_click ''next'' (steady 1735689599000) ^^ 11) (on_load 1735689599000)) = Some 2025"
    "currMonth ((icon_click ''next'' (steady 1735689599000) ^^ 11) (on_load 1735689599000)) = Some 10"
    unfolding s using c 1(1) by simp_all
qed

section \<open>The claims\<close>

text \<open>
  C1 (as amended). For every year within the range of a Date (\<open>in_range\<close>, with the
  years 0..99 read as 1900..1999) and every month in 0..11, the grid written by
  \<open>calendar\<close> has a number of cells that is a multiple of 7, is at least
  \<open>lastDateofMonth\<close>, is the smallest multiple of 7 that covers the \<open>firstDayofMonth\<close>
  leading cells plus the days of the month, and is at most 42.
\<close>

theorem calendar_cell_count:
  assumes "in_range y" "0 \<le> m" "m \<le> 11"
  shows "\<exists>f L n.
           getDay (new_Date (Some y) (Some m) (Some 1)) = Some f
         \<and> getDate (new_Date (Some y) (Some (m + 1)) (Some 0)) = Some L
         \<and> n = int (length (daysTag_innerHTML (calendar clock (st\<lparr>currYear := Some y, currMonth := Some m\<rparr>))))
         \<and> n mod 7 = 0 \<and> L \<le> n \<and> f + L \<le> n \<and> n < f + L + 7 \<and> n \<le> 42"
proof -
  define st' where "st' = st\<lparr>currYear := Some y, currMonth := Some m\<rparr>"
  define f where "f = FirstWeekDay (FullYear y) m"
  define L where "L = DaysInMonth (FullYear y) m"
  define P where "P = DaysInPrevMonth (FullYear y) m"
  define n where "n = int (length (daysTag_innerHTML (calendar clock st')))"
  have "daysTag_innerHTML (calendar clock st') =
      inactive_run (P - f + 1) P @ day_run (clock 0) (clock 1) st' L
        @ inactive_run 1 (6 - (f + L - 1) mod 7)"
    unfolding f_def L_def P_def using assms by (intro calendar_grid) (simp_all add: st'_def)
  then have n: "n = int (length (inactive_run (P - f + 1) P @ day_run (clock 0) (clock 1) st' L
                      @ inactive_run 1 (6 - (f + L - 1) mod 7)))"
    unfolding n_def by (rule arg_cong)
  have fr: "0 \<le> f" "f \<le> 6" unfolding f_def by (rule FirstWeekDay_range)+
  have Lr: "28 \<le> L" "L \<le> 31" unfolding L_def by (rule DaysInMonth_range)+
  note p = grid_length[OF fr Lr n]
  have f: "getDay (new_Date (Some y) (Some m) (Some 1)) = Some f"
    using firstDayofMonth_eq[OF assms] by (simp add: FirstWeekDay_def f_def)
  have L: "getDate (new_Date (Some y) (Some (m + 1)) (Some 0)) = Some L"
    unfolding L_def by (rule lastDateofMonth_eq[OF assms])
  have "getDay (new_Date (Some y) (Some m) (Some 1)) = Some f
         \<and> getDate (new_Date (Some y) (Some (m + 1)) (Some 0)) = Some L
         \<and> n = int (length (daysTag_innerHTML (calendar clock st')))
         \<and> n mod 7 = 0 \<and> L \<le> n \<and> f + L \<le> n \<and> n < f + L + 7 \<and> n \<le> 42"
    by (intro conjI f L n_def p)
  then show ?thesis unfolding st'_def by (intro exI)
qed

text \<open>The theorem at February 2024.\<close>

theorem calendar_cell_count_witness:
  "in_range 2024 \<and> (0::int) \<le> 1 \<and> (1::int) \<le> 11
   \<and> (\<exists>f L n.
           getDay (new_Date (Some 2024) (Some 1) (Some 1)) = Some f
         \<and> getDate (new_Date (Some 2024) (Some (1 + 1)) (Some 0)) = Some L
         \<and> n = int (length (daysTag_innerHTML (calendar (steady 0) ((on_load 0)\<lparr>currYear := Some 2024, currMonth := Some 1\<rparr>))))
         \<and> n mod 7 = 0 \<and> L \<le> n \<and> f + L \<le> n \<and> n < f + L + 7 \<and> n \<le> 42)"
proof -
  have h: "in_range 2024" "(0::int) \<le> 1" "(1::int) \<le> 11" by (simp_all add: in_range_def)
  show ?thesis by (intro conjI h calendar_cell_count[OF h])
qed

text \<open>
  As stated for every year, C1 fails: the last day a Date can hold is 13 September
  275760, so the first day of that month is a Date (a Monday) and its last day is not;
  \<open>lastDateofMonth\<close> is \<open>NaN\<close>, and the grid is the single leading cell 31.
\<close>

theorem calendar_cell_count_counterexample:
  "daysTag_innerHTML (calendar (steady 0) ((on_load 0)\<lparr>currYear := Some 275760, currMonth := Some 8\<rparr>))
     = [Li ''inactive'' (Some 31)]
   \<and> length (daysTag_innerHTML (calendar (steady 0) ((on_load 0)\<lparr>currYear := Some 275760, currMonth := Some 8\<rparr>))) mod 7 \<noteq> 0
   \<and> getDate (new_Date (Some 275760) (Some (8 + 1)) (Some 0)) = None"
  by code_simp

text \<open>
  C2 (as amended). For year 2024 and month 1 (February of a leap year) the grid has
  exactly 29 active cells with the numbers 1..29, a first weekday of Thursday (index 4),
  exactly 4 leading inactive cells labelled 28, 29, 30, 31, and 2 trailing cells
  labelled 1, 2 that pad the 33 cells to 35.
\<close>

theorem february_2024_grid:
  "getDay (new_Date (Some 2024) (Some 1) (Some 1)) = Some 4
   \<and> leading_cells (daysTag_innerHTML (calendar clock (st\<lparr>currYear := Some 2024, currMonth := Some 1\<rparr>)))
       = [Li ''inactive'' (Some 28), Li ''inactive'' (Some 29), Li ''inactive'' (Some 30),
          Li ''inactive'' (Some 31)]
   \<and> map innerText (active_cells (daysTag_innerHTML (calendar clock (st\<lparr>currYear := Some 2024, currMonth := Some 1\<rparr>))))
       = map Some [1..29]
   \<and> length (active_cells (daysTag_innerHTML (calendar clock (st\<lparr>currYear := Some 2024, currMonth := Some 1\<rparr>)))) = 29
   \<and> trailing_cells (daysTag_innerHTML (calendar clock (st\<lparr>currYear := Some 2024, currMonth := Some 1\<rparr>)))
       = [Li ''inactive'' (Some 1), Li ''inactive'' (Some 2)]
   \<and> length (daysTag_innerHTML (calendar clock (st\<lparr>currYear := Some 2024, currMonth := Some 1\<rparr>))) = 35"
proof -
  define st' where "st' = st\<lparr>currYear := Some 2024, currMonth := Some 1\<rparr>"
  have s: "currYear st' = Some 2024" "currMonth st' = Some 1" by (simp_all add: st'_def)
  have m: "(0::int) \<le> 1" "(1::int) \<le> 11" by simp_all
  note r = calendar_runs[OF Feb_2024(1) m s, of clock, unfolded Feb_2024]
  have u1: "[31 - 4 + 1..31] = [28, 29, 30, 31::int]" by (simp add: upto_rec_numeral)
  have u2: "[1..6 - (4 + 29 - 1) mod 7] = [1, 2::int]" by code_simp
  have f: "getDay (new_Date (Some 2024) (Some 1) (Some 1)) = Some 4"
    using firstDayofMonth_eq[OF Feb_2024(1) m] Feb_2024(3)
    by (simp add: FirstWeekDay_def Feb_2024(2))
  have l: "leading_cells (daysTag_innerHTML (calendar clock st')) =
      [Li ''inactive'' (Some 28), Li ''inactive'' (Some 29), Li ''inactive'' (Some 30),
       Li ''inactive'' (Some 31)]"
    unfolding r(1) inactive_run_def u1 by simp
  have a: "map innerText (active_cells (daysTag_innerHTML (calendar clock st'))) = map Some [1..29]"
    unfolding r(2) by (rule innerText_day_run)
  have al: "length (active_cells (daysTag_innerHTML (calendar clock st'))) = 29"
    unfolding r(2) length_day_run by simp
  have t: "trailing_cells (daysTag_innerHTML (calendar clock st')) =
      [Li ''inactive'' (Some 1), Li ''inactive'' (Some 2)]"
    unfolding r(3) inactive_run_def u2 by simp
  have n: "length (daysTag_innerHTML (calendar clock st')) = 35"
    unfolding calendar_grid[OF Feb_2024(1) m s, of clock, unfolded Feb_2024]
    by (simp add: length_inactive_run length_day_run)
  show ?thesis unfolding st'_def[symmetric] by (intro conjI f l a al t n)
qed

text \<open>The claim has 36 cells in all; the grid has 35, the next multiple of 7 after 33.\<close>

theorem february_2024_grid_counterexample:
  "length (daysTag_innerHTML (calendar (steady 0) ((on_load 0)\<lparr>currYear := Some 2024, currMonth := Some 1\<rparr>))) = 35
   \<and> length (trailing_cells (daysTag_innerHTML (calendar (steady 0) ((on_load 0)\<lparr>currYear := Some 2024, currMonth := Some 1\<rparr>)))) = 2
   \<and> length (daysTag_innerHTML (calendar (steady 0) ((on_load 0)\<lparr>currYear := Some 2024, currMonth := Some 1\<rparr>))) \<noteq> 36"
  by code_simp







text \<open>
  C5. The claim lets a cell be marked as today only when the year and month on show are
  the year and month of today. \<open>calendar\<close> compares \<open>currMonth\<close> with the month of one
  reading of the clock and \<open>currYear\<close> with the year of a second reading. The page is
  loaded on 31 December 2024 at 23:59:59 and the next icon is clicked twelve times; the
  last click reads the clock one millisecond before midnight for the handler and for the
  month, and at midnight for the year. The page then shows December 2025 with its cell 31
  marked as today, while the clock is in December 2024 at the one reading and in January
  2025 at the other, at no reading in December 2025.
\<close>

theorem today_across_new_year:
  "currYear (icon_click ''next'' (turning 1735689599999 2 1735689600000)
       ((icon_click ''next'' (steady 1735689599000) ^^ 11) (on_load 1735689599000))) = Some 2025
   \<and> currMonth (icon_click ''next'' (turning 1735689599999 2 1735689600000)
       ((icon_click ''next'' (steady 1735689599000) ^^ 11) (on_load 1735689599000))) = Some 11
   \<and> filter isToday (daysTag_innerHTML (icon_click ''next'' (turning 1735689599999 2 1735689600000)
       ((icon_click ''next'' (steady 1735689599000) ^^ 11) (on_load 1735689599000))))
       = [Li ''active'' (Some 31)]
   \<and> YearFromTime 1735689599999 = 2024 \<and> MonthFromTime 1735689599999 = 11
   \<and> YearFromTime 1735689600000 = 2025 \<and> MonthFromTime 1735689600000 = 0"
proof -
  have e: "DateFromTime (turning 1735689599999 2 1735689600000 0) = 31"
    "MonthFromTime (turning 1735689599999 2 1735689600000 1) = 11"
    "YearFromTime (turning 1735689599999 2 1735689600000 2) = 2025"
    by code_simp+
  note c = click_into_December_2025[OF eleven_clicks e]
  have t: "YearFromTime 1735689599999 = 2024" "MonthFromTime 1735689599999 = 11"
    "YearFromTime 1735689600000 = 2025" "MonthFromTime 1735689600000 = 0"
    by code_simp+
  show ?thesis by (intro conjI c t)
qed

text \<open>
  C6 (as amended). \<open>calendar\<close> does not carry a month outside 0..11 into the year; the
  click handler does, before it calls \<open>calendar\<close> (\<open>normalize\<close>). For a year of the range of
  a Date that a Date reads as it is (not one of 0..99), a month \<open>m\<close> outside 0..11 with the
  year \<open>y + m div 12\<close> in the range too, and a clock whose day of the month is a day of the
  month carried to, the handler followed by \<open>calendar\<close> shows the year \<open>y + m div 12\<close>, the
  month \<open>m mod 12\<close>, and the label and cells that \<open>calendar\<close> draws for that year and month
  with the reading of the clock stored in \<open>date\<close>. For every clock and page, year 2024 with
  month 12 gives what year 2025 with month 0 gives, and year 2024 with month -1 what year
  2023 with month 11 gives; these are the months that a click on next in December, or on
  prev in January, hands to the handler.
\<close>

theorem month_carry_borrow:
  assumes "in_range y" "y < 0 \<or> 99 < y" "m < 0 \<or> 11 < m" "in_range (y + m div 12)"
    "DateFromTime now \<le> DaysInMonth (y + m div 12) (m mod 12)"
  shows "view (calendar clock (normalize now (st\<lparr>currYear := Some y, currMonth := Some m\<rparr>)))
       = view (calendar clock
            (st\<lparr>currYear := Some (y + m div 12), currMonth := Some (m mod 12), date := Some now\<rparr>))
     \<and> view (calendar clock' (normalize now' (st'\<lparr>currYear := Some 2024, currMonth := Some 12\<rparr>)))
       = view (calendar clock' (st'\<lparr>currYear := Some 2025, currMonth := Some 0, date := Some now'\<rparr>))
     \<and> view (calendar clock' (normalize now' (st'\<lparr>currYear := Some 2024, currMonth := Some (- 1)\<rparr>)))
       = view (calendar clock' (st'\<lparr>currYear := Some 2023, currMonth := Some 11, date := Some now'\<rparr>))
     \<and> view (icon_click ''next'' c (s\<lparr>currYear := Some 2024, currMonth := Some 11\<rparr>))
       = view (calendar (\<lambda>k. c (k + 1)) (s\<lparr>currYear := Some 2025, currMonth := Some 0, date := Some (c 0)\<rparr>))
     \<and> view (icon_click ''prev'' c (s\<lparr>currYear := Some 2024, currMonth := Some 0\<rparr>))
       = view (calendar (\<lambda>k. c (k + 1)) (s\<lparr>currYear := Some 2023, currMonth := Some 11, date := Some (c 0)\<rparr>))"
proof -
  have r: "in_range 2024" "(2024::int) < 0 \<or> 99 < (2024::int)"
    "(12::int) < 0 \<or> 11 < (12::int)" "(- 1::int) < 0 \<or> 11 < (- 1::int)"
    "in_range (2024 + 12 div 12)" "in_range (2024 + (- 1) div 12)"
    by (simp_all add: in_range_def)
  have d: "DaysInMonth (2024 + 12 div 12) (12 mod 12) = 31"
    "DaysInMonth (2024 + (- 1) div 12) ((- 1) mod 12) = 31"
    by (simp_all add: DaysInMonth_def)
  have n: "\<And>t. DateFromTime t \<le> DaysInMonth (2024 + 12 div 12) (12 mod 12)"
    "\<And>t. DateFromTime t \<le> DaysInMonth (2024 + (- 1) div 12) ((- 1) mod 12)"
    unfolding d by (rule DateFromTime_range)+
  have e: "(2024::int) + 12 div 12 = 2025" "(12::int) mod 12 = 0"
    "(2024::int) + (- 1) div 12 = 2023" "(- 1::int) mod 12 = 11"
    by simp_all
  note cn = carry_view[OF r(1,2,3,5) n(1), unfolded e]
  note cp = carry_view[OF r(1,2,4,6) n(2), unfolded e]
  have i: "icon_click ''next'' c (s\<lparr>currYear := Some 2024, currMonth := Some 11\<rparr>)
      = calendar (\<lambda>k. c (k + 1)) (normalize (c 0) (s\<lparr>currYear := Some 2024, currMonth := Some 12\<rparr>))"
    using icon_click_next[of "s\<lparr>currYear := Some 2024, currMonth := Some 11\<rparr>" 11 c] by simp
  have j: "icon_click ''prev'' c (s\<lparr>currYear := Some 2024, currMonth := Some 0\<rparr>)
      = calendar (\<lambda>k. c (k + 1)) (normalize (c 0) (s\<lparr>currYear := Some 2024, currMonth := Some (- 1)\<rparr>))"
    using icon_click_prev[of "s\<lparr>currYear := Some 2024, currMonth := Some 0\<rparr>" 0 c] by simp
  show ?thesis
    unfolding i j by (intro conjI carry_view[OF assms] cn cp)
qed

text \<open>
  The theorem for year 2024 and month 13 on 1 January 1970: the handler shows February
  2025.
\<close>

theorem month_carry_borrow_witness:
  "in_range 2024 \<and> ((2024::int) < 0 \<or> 99 < (2024::int)) \<and> ((13::int) < 0 \<or> 11 < (13::int))
   \<and> in_range (2024 + 13 div 12) \<and> DateFromTime 0 \<le> DaysInMonth (2024 + 13 div 12) (13 mod 12)
   \<and> view (calendar (steady 0) (normalize 0 ((on_load 0)\<lparr>currYear := Some 2024, currMonth := Some 13\<rparr>)))
       = view (calendar (steady 0)
            ((on_load 0)\<lparr>currYear := Some (2024 + 13 div 12), currMonth := Some (13 mod 12), date := Some 0\<rparr>))"
proof -
  have h: "in_range 2024" "(2024::int) < 0 \<or> 99 < (2024::int)" "(13::int) < 0 \<or> 11 < (13::int)"
    "in_range (2024 + 13 div 12)" "DateFromTime 0 \<le> DaysInMonth (2024 + 13 div 12) (13 mod 12)"
    by code_simp+
  note t = month_carry_borrow[OF h, of "steady 0" "on_load 0"]
  show ?thesis by (intro conjI h t[THEN conjunct1])
qed

text \<open>
  As stated of the grid computation, C6 fails: \<open>calendar\<close> at year 2024 and month 12 draws
  the cells of January 2025 under a label with no month name and the year 2024
  (\<open>months[12]\<close> is \<open>undefined\<close>), and at month -1 likewise; \<open>currYear\<close> and \<open>currMonth\<close> stay
  2024 and 12. The carry of the handler is not a carry into the year for every input
  either: from year 50 and month 12 it goes to 1951, and from year 2024 and month 13 on
  the 31st of a month to March 2025.
\<close>

theorem month_carry_borrow_counterexample:
  "currentDate_innerText (calendar (steady 0) ((on_load 0)\<lparr>currYear := Some 2024, currMonth := Some 12\<rparr>))
     = (None, Some 2024)
   \<and> currentDate_innerText (calendar (steady 0) ((on_load 0)\<lparr>currYear := Some 2025, currMonth := Some 0\<rparr>))
     = (Some ''January'', Some 2025)
   \<and> currMonth (calendar (steady 0) ((on_load 0)\<lparr>currYear := Some 2024, currMonth := Some 12\<rparr>)) = Some 12
   \<and> view (calendar (steady 0) ((on_load 0)\<lparr>currYear := Some 2024, currMonth := Some 12\<rparr>))
     \<noteq> view (calendar (steady 0) ((on_load 0)\<lparr>currYear := Some 2025, currMonth := Some 0\<rparr>))
   \<and> currentDate_innerText (calendar (steady 0) ((on_load 0)\<lparr>currYear := Some 2024, currMonth := Some (- 1)\<rparr>))
     = (None, Some 2024)
   \<and> view (calendar (steady 0) ((on_load 0)\<lparr>currYear := Some 2024, currMonth := Some (- 1)\<rparr>))
     \<noteq> view (calendar (steady 0) ((on_load 0)\<lparr>currYear := Some 2023, currMonth := Some 11\<rparr>))
   \<and> currYear (normalize 0 ((on_load 0)\<lparr>currYear := Some 50, currMonth := Some 12\<rparr>)) = Some 1951
   \<and> getDate (Some 2592000000) = Some 31
   \<and> currMonth (normalize 2592000000 ((on_load 0)\<lparr>currYear := Some 2024, currMonth := Some 13\<rparr>)) = Some 2"
  by code_simp




text \<open>
  C8 (as amended). \<open>calendar\<close> takes no parameter: it reads \<open>currYear\<close>, \<open>currMonth\<close>, the day
  of the month of the stored \<open>date\<close>, and the clock, once for the month and once more for
  the year. Two runs, in each of which the two readings of the clock are in the same
  month of the same year, and which agree on \<open>currYear\<close>, on \<open>currMonth\<close>, on the day of the
  month of the stored \<open>date\<close> and on that month and year of the clock, write the same
  label and the same cells. Writing these two page elements is the only effect;
  \<open>currYear\<close>, \<open>currMonth\<close> and \<open>date\<close> are left as they were.
\<close>

theorem calendar_reads:
  assumes "currYear st = currYear st'" "currMonth st = currMonth st'"
    "getDate (date st) = getDate (date st')"
    "getMonth (Some (clock 1)) = getMonth (Some (clock 0))"
    "getFullYear (Some (clock 1)) = getFullYear (Some (clock 0))"
    "getMonth (Some (clock' 1)) = getMonth (Some (clock' 0))"
    "getFullYear (Some (clock' 1)) = getFullYear (Some (clock' 0))"
    "getMonth (Some (clock 0)) = getMonth (Some (clock' 0))"
    "getFullYear (Some (clock 0)) = getFullYear (Some (clock' 0))"
  shows "currentDate_innerText (calendar clock st) = currentDate_innerText (calendar clock' st')
       \<and> daysTag_innerHTML (calendar clock st) = daysTag_innerHTML (calendar clock' st')
       \<and> currYear (calendar clock st) = currYear st
       \<and> currMonth (calendar clock st) = currMonth st
       \<and> date (calendar clock st) = date st"
proof -
  have "view (calendar clock st) = view (calendar clock' st')"
    using assms by (intro calendar_view_cong) (simp_all add: getMonth_def getFullYear_def)
  then have "currentDate_innerText (calendar clock st) = currentDate_innerText (calendar clock' st')"
    "daysTag_innerHTML (calendar clock st) = daysTag_innerHTML (calendar clock' st')"
    by (simp_all add: view_def)
  then show ?thesis by (intro conjI calendar_frame)
qed

text \<open>
  The theorem for two runs on 1 January 1970: the first with the clock at time 0, the
  second with the clock one second and then two seconds later, another time of that day
  stored and other cells on the page before.
\<close>

theorem calendar_reads_witness:
  "daysTag_innerHTML (calendar (steady 0) (on_load 0))
     = daysTag_innerHTML (calendar (turning 1000 1 2000) ((on_load 0)\<lparr>date := Some 5000, daysTag_innerHTML := [Li ''x'' None]\<rparr>))
   \<and> date (calendar (steady 0) (on_load 0)) = date (on_load 0)"
proof -
  have h: "currYear (on_load 0) = currYear ((on_load 0)\<lparr>date := Some 5000, daysTag_innerHTML := [Li ''x'' None]\<rparr>)"
    "currMonth (on_load 0) = currMonth ((on_load 0)\<lparr>date := Some 5000, daysTag_innerHTML := [Li ''x'' None]\<rparr>)"
    "getDate (date (on_load 0)) = getDate (date ((on_load 0)\<lparr>date := Some 5000, daysTag_innerHTML := [Li ''x'' None]\<rparr>))"
    "getMonth (Some (steady 0 1)) = getMonth (Some (steady 0 0))"
    "getFullYear (Some (steady 0 1)) = getFullYear (Some (steady 0 0))"
    "getMonth (Some (turning 1000 1 2000 1)) = getMonth (Some (turning 1000 1 2000 0))"
    "getFullYear (Some (turning 1000 1 2000 1)) = getFullYear (Some (turning 1000 1 2000 0))"
    "getMonth (Some (steady 0 0)) = getMonth (Some (turning 1000 1 2000 0))"
    "getFullYear (Some (steady 0 0)) = getFullYear (Some (turning 1000 1 2000 0))"
    by code_simp+
  note t = calendar_reads[OF h]
  show ?thesis by (intro conjI t[THEN conjunct2, THEN conjunct1]
      t[THEN conjunct2, THEN conjunct2, THEN conjunct2, THEN conjunct2])
qed

text \<open>
  The claim makes the grid a function of year, month and one date \<open>today\<close>, without side
  effects. \<open>calendar\<close> reads two: the day comes from the stored \<open>date\<close>, month and year
  from the clock. On 2 January 1970, for the same year and month, the page that has
  1 January stored (it was loaded the day before) marks cell 1 and the page that has
  2 January stored marks cell 2; with year, month and stored date the same, a clock
  at 1 February gives another grid than one at 1 January; and the page is not what it
  was before the call.
\<close>

theorem calendar_reads_counterexample:
  "currYear (on_load 0) = currYear ((on_load 0)\<lparr>date := Some 86400000\<rparr>)
   \<and> currMonth (on_load 0) = currMonth ((on_load 0)\<lparr>date := Some 86400000\<rparr>)
   \<and> daysTag_innerHTML (calendar (steady 86400000) (on_load 0))
       \<noteq> daysTag_innerHTML (calendar (steady 86400000) ((on_load 0)\<lparr>date := Some 86400000\<rparr>))
   \<and> daysTag_innerHTML (calendar (steady 0) (on_load 0))
       \<noteq> daysTag_innerHTML (calendar (steady 2678400000) (on_load 0))
   \<and> calendar (steady 0) (on_load 0) \<noteq> on_load 0"
  by code_simp

text \<open>
  C9. The two scripts do not draw the same cells: for some year and month in 0..11
  (January 2024, which starts on a Monday) the cells of \<open>calendar\<close> differ from those of
  \<open>showCalendar\<close>, whatever \<open>daysInMonth\<close> returns and whatever the day is. The first
  cell of \<open>calendar\<close> is the inactive cell 31 of December; the first cell of
  \<open>showCalendar\<close> is empty.
\<close>

theorem implementations_differ:
  "\<exists>y m. 0 \<le> m \<and> m \<le> 11
     \<and> (\<forall>clock st daysInMonth today.
           map li_shown (daysTag_innerHTML (calendar clock (st\<lparr>currYear := Some y, currMonth := Some m\<rparr>)))
         \<noteq> map td_shown (concat (calendar_body (showCalendar daysInMonth today (Some m) (Some y)))))"
proof -
  have "(0::int) \<le> 0 \<and> (0::int) \<le> 11
     \<and> (\<forall>clock st daysInMonth today.
           map li_shown (daysTag_innerHTML (calendar clock (st\<lparr>currYear := Some 2024, currMonth := Some 0\<rparr>)))
         \<noteq> map td_shown (concat (calendar_body (showCalendar daysInMonth today (Some 0) (Some 2024)))))"
    using January_2024_differs by simp
  then show ?thesis by (intro exI[where x = 2024] exI[where x = 0])
qed

text \<open>The first cells of the two, with 31 days in the month and the clock at time 0.\<close>

lemma January_2024_first_cells:
  "map li_shown (daysTag_innerHTML (calendar (steady 0) ((on_load 0)\<lparr>currYear := Some 2024, currMonth := Some 0\<rparr>)))
     \<noteq> map td_shown (concat (calendar_body (showCalendar (\<lambda>m y. Some 31) (Some 0) (Some 0) (Some 2024))))
   \<and> hd (map li_shown (daysTag_innerHTML (calendar (steady 0) ((on_load 0)\<lparr>currYear := Some 2024, currMonth := Some 0\<rparr>))))
       = Some (Some 31)
   \<and> hd (map td_shown (concat (calendar_body (showCalendar (\<lambda>m y. Some 31) (Some 0) (Some 0) (Some 2024)))))
       = None"
  by code_simp

end
